theory Spec2Isabelle
  imports Complex_Main "HOL-Library.Multiset"
begin

section \<open>Pagination views\<close>

text \<open>
  JavaScript Numbers are IEEE 754 doubles: the result of an arithmetic operation is
  the exact result rounded to the nearest double, ties to the even significand.
  \<open>round_double\<close> is that rounding for the normal range of doubles, with 53
  significant bits; overflow to infinity and the subnormal numbers are not modelled
  (no value below stays outside the normal range, zero apart).
\<close>

definition round_half_even :: "real \<Rightarrow> int" where
  "round_half_even m =
     (let f = \<lfloor>m\<rfloor>; d = m - of_int f
      in if d < 1/2 then f else if 1/2 < d then f + 1 else if even f then f else f + 1)"

definition round_double :: "real \<Rightarrow> real" where
  "round_double x =
     (if x = 0 then 0
      else (let e = \<lfloor>log 2 \<bar>x\<bar>\<rfloor>; u = 2 powr (of_int e - 52)
            in sgn x * (u * of_int (round_half_even (\<bar>x\<bar> / u)))))"

text \<open>
  \<^verbatim>\<open>ConversationDetail\<close> and \<^verbatim>\<open>MemoryScreen\<close> both derive the page
  numbers from the pagination triple with
  \<^verbatim>\<open>Math.ceil(total / limit)\<close> and \<^verbatim>\<open>Math.floor(offset / limit) + 1\<close>.
  The operands are integer Numbers; the division and the addition round, the floor and
  the ceiling of a double are exact. (A zero \<^verbatim>\<open>limit\<close>, for which JavaScript
  gives \<^verbatim>\<open>Infinity\<close> or \<^verbatim>\<open>NaN\<close>, is outside the model.)
\<close>

definition totalPages :: "int \<Rightarrow> int \<Rightarrow> int" where
  "totalPages tot lmt = \<lceil>round_double (of_int tot / of_int lmt)\<rceil>"

definition currentPage :: "int \<Rightarrow> int \<Rightarrow> int" where
  "currentPage ofs lmt =
     \<lfloor>round_double (of_int \<lfloor>round_double (of_int ofs / of_int lmt)\<rfloor> + 1)\<rfloor>"

section \<open>Server-sent event stream decoder\<close>

text \<open>
  \<^verbatim>\<open>streamAgent\<close> in \<^verbatim>\<open>lib/api.ts\<close> reads the response body chunk by chunk,
  splits the accumulated text at newlines and interprets the complete lines.
  The values it yields are whatever \<^verbatim>\<open>JSON.parse\<close> returns, so the model has
  the JSON values and JavaScript's truthiness test on them, which decides
  \<^verbatim>\<open>if (currentEvent.data)\<close>.
\<close>

datatype json =
    JNull
  | JBool bool
  | JNumber real
  | JString string
  | JArray "json list"
  | JObject "(string \<times> json) list"

fun truthy :: "json \<Rightarrow> bool" where
  "truthy JNull = False"
| "truthy (JBool b) = b"
| "truthy (JNumber x) = (x \<noteq> 0)"
| "truthy (JString s) = (s \<noteq> [])"
| "truthy (JArray vs) = True"
| "truthy (JObject kvs) = True"

text \<open>
  \<^verbatim>\<open>Partial<StreamResponse>\<close>: every field may be missing; \<^verbatim>\<open>{}\<close> has none.
\<close>

record stream_response =
  event :: "string option"
  data :: "json option"
  id' :: "string option"

definition empty_event :: stream_response where
  "empty_event = \<lparr>event = None, data = None, id' = None\<rparr>"

text \<open>\<^verbatim>\<open>line.startsWith(p)\<close>.\<close>

fun startsWith :: "string \<Rightarrow> string \<Rightarrow> bool" where
  "startsWith s [] = True"
| "startsWith [] (d # p) = False"
| "startsWith (c # s) (d # p) = (c = d \<and> startsWith s p)"

text \<open>
  \<^verbatim>\<open>buffer.split('\n')\<close>: the pieces between newlines, always at least one piece
  (the empty text gives one empty piece), so the \<open>[]\<close> branch of the case is never taken.
\<close>

fun split_newline :: "string \<Rightarrow> string list" where
  "split_newline [] = ['''']"
| "split_newline (c # cs) =
     (if c = CHR 0x0A then [] # split_newline cs
      else (case split_newline cs of
              [] \<Rightarrow> [c # []]
            | l # ls \<Rightarrow> (c # l) # ls))"

text \<open>
  The \<^verbatim>\<open>for (const line of lines)\<close> loop of one chunk. \<open>parse\<close> stands for
  \<^verbatim>\<open>JSON.parse\<close>: \<open>None\<close> where it throws. The result is the list of yielded
  values, the list of payloads passed to \<^verbatim>\<open>console.warn\<close>, and the value of
  \<^verbatim>\<open>currentEvent\<close> at the end of the loop, or \<open>None\<close> when the generator has
  returned at \<^verbatim>\<open>[DONE]\<close>.
\<close>

fun for_lines :: "(string \<Rightarrow> json option) \<Rightarrow> stream_response \<Rightarrow> string list
    \<Rightarrow> json list \<times> string list \<times> stream_response option" where
  "for_lines parse cur [] = ([], [], Some cur)"
| "for_lines parse cur (line # ls) =
     (if startsWith line ''event: '' then
        for_lines parse (cur\<lparr>event := Some (drop 7 line)\<rparr>) ls
      else if startsWith line ''data: '' then
        (let dataStr = drop 6 line in
         if dataStr = ''[DONE]'' then ([], [], None)
         else (case parse dataStr of
                 Some v \<Rightarrow> for_lines parse (cur\<lparr>data := Some v\<rparr>) ls
               | None \<Rightarrow> (case for_lines parse cur ls of
                            (ys, ws, fin) \<Rightarrow> (ys, dataStr # ws, fin))))
      else if startsWith line ''id: '' then
        for_lines parse (cur\<lparr>id' := Some (drop 4 line)\<rparr>) ls
      else if line = [] then
        (case data cur of
           Some v \<Rightarrow>
             if truthy v then
               (case for_lines parse empty_event ls of
                  (ys, ws, fin) \<Rightarrow> (v # ys, ws, fin))
             else for_lines parse cur ls
         | None \<Rightarrow> for_lines parse cur ls)
      else for_lines parse cur ls)"

text \<open>
  The \<^verbatim>\<open>while (true)\<close> loop over \<^verbatim>\<open>reader.read()\<close>. The chunks are the texts
  that \<^verbatim>\<open>decoder.decode(value, {stream: true})\<close> returns, in order; the list ends
  where the reader reports \<^verbatim>\<open>done\<close>. Each iteration appends the chunk to the
  buffer, keeps the last piece (\<^verbatim>\<open>lines.pop() || ''\<close>) as the new buffer and
  runs the line loop on the other pieces, starting from a fresh
  \<^verbatim>\<open>currentEvent = {}\<close>.
\<close>

datatype ending = Sentinel | TransportEnd

fun read_loop :: "(string \<Rightarrow> json option) \<Rightarrow> string \<Rightarrow> string list
    \<Rightarrow> json list \<times> string list \<times> ending" where
  "read_loop parse buffer [] = ([], [], TransportEnd)"
| "read_loop parse buffer (chunk # chunks) =
     (let lines = split_newline (buffer @ chunk) in
      (case for_lines parse empty_event (butlast lines) of
         (ys, ws, None) \<Rightarrow> (ys, ws, Sentinel)
       | (ys, ws, Some cur) \<Rightarrow>
           (case read_loop parse (last lines) chunks of
              (ys', ws', e) \<Rightarrow> (ys @ ys', ws @ ws', e))))"

text \<open>
  \<^verbatim>\<open>streamAgent\<close> itself: it throws when the response is not ok or has no body
  reader, and otherwise runs the read loop from an empty buffer.
\<close>

datatype stream_error = StreamError | NoReader

record response =
  ok :: bool
  body :: "string list option"

definition streamAgent :: "(string \<Rightarrow> json option) \<Rightarrow> response
    \<Rightarrow> stream_error + (json list \<times> string list \<times> ending)" where
  "streamAgent parse resp =
     (if \<not> ok resp then Inl StreamError
      else (case body resp of
              None \<Rightarrow> Inl NoReader
            | Some chunks \<Rightarrow> Inr (read_loop parse [] chunks)))"

text \<open>
  The values of \<^verbatim>\<open>JSON.parse\<close> on the payloads used in the examples below; every
  other payload of the examples is one on which \<^verbatim>\<open>JSON.parse\<close> throws.
\<close>

definition parse_sample :: "string \<Rightarrow> json option" where
  "parse_sample s =
     (if s = ''{\"a\":1}'' then Some (JObject [(''a'', JNumber 1)])
      else if s = ''{\"b\":2}'' then Some (JObject [(''b'', JNumber 2)])
      else if s = ''0'' then Some (JNumber 0)
      else if s = ''1'' then Some (JNumber 1)
      else None)"

text \<open>
  The values of the data lines of a list of lines that parse, in order, and the
  test whether \<^verbatim>\<open>currentEvent.data\<close> is truthy.
\<close>

definition parsed_data :: "(string \<Rightarrow> json option) \<Rightarrow> string list \<Rightarrow> json list" where
  "parsed_data parse ls =
     List.map_filter (\<lambda>l. if startsWith l ''data: '' then parse (drop 6 l) else None) ls"

definition has_data :: "stream_response \<Rightarrow> bool" where
  "has_data cur = (case data cur of None \<Rightarrow> False | Some v \<Rightarrow> truthy v)"

definition record_data :: "(string \<Rightarrow> json option) \<Rightarrow> stream_response \<Rightarrow> string list
    \<Rightarrow> json option" where
  "record_data parse cur ls =
     (if parsed_data parse ls = [] then data cur else Some (last (parsed_data parse ls)))"

section \<open>Pagination handlers of the traces screen\<close>

text \<open>
  The \<^verbatim>\<open>pagination\<close> state of \<^verbatim>\<open>TracesScreen\<close> and
  \<^verbatim>\<open>MemoryBrowser\<close>: \<^verbatim>\<open>{limit, offset, total}\<close>.
\<close>

record pagination =
  limit :: int
  offset :: int
  total' :: int

text \<open>
  \<^verbatim>\<open>handleNextPage\<close> and \<^verbatim>\<open>handlePrevPage\<close> of \<^verbatim>\<open>traces-screen.tsx\<close>.
  They read the guard from the current state and call \<^verbatim>\<open>setPagination\<close> only;
  the traces are fetched again by the effect that depends on \<^verbatim>\<open>limit\<close> and
  \<^verbatim>\<open>offset\<close>, so an unchanged pagination state leaves the list alone.
\<close>

definition traces_handleNextPage :: "pagination \<Rightarrow> pagination" where
  "traces_handleNextPage p =
     (if offset p + limit p < total' p then p\<lparr>offset := offset p + limit p\<rparr> else p)"

definition traces_handlePrevPage :: "pagination \<Rightarrow> pagination" where
  "traces_handlePrevPage p =
     (if offset p > 0 then p\<lparr>offset := max 0 (offset p - limit p)\<rparr> else p)"

text \<open>
  An operation of a screen either returns the next state or raises an error. The
  handlers below have no \<^verbatim>\<open>throw\<close>, and the loaders catch what their
  requests throw and store the message in the state.
\<close>

datatype 's outcome = Raised string | Returned 's

text \<open>
  The state of \<^verbatim>\<open>TracesScreen\<close> that \<^verbatim>\<open>loadTraces\<close> and the page
  handlers touch: the displayed \<^verbatim>\<open>traces\<close>, \<^verbatim>\<open>pagination\<close>,
  \<^verbatim>\<open>loading\<close> and \<^verbatim>\<open>error\<close>.
\<close>

record 't traces_screen =
  traces :: "'t list"
  traces_pagination :: pagination
  traces_loading :: bool
  traces_error :: "string option"

text \<open>
  \<^verbatim>\<open>Promise.all([getTraces(limit, offset), getTraceStats()])\<close>: the traces and
  the total of the answer, or the message of the error that either request throws.
\<close>

type_synonym 't getTraces = "int \<Rightarrow> int \<Rightarrow> string + ('t list \<times> int)"

text \<open>
  \<^verbatim>\<open>loadTraces\<close>: the answer replaces the displayed traces and the total; a
  thrown error is stored and leaves both as they were.
\<close>

definition loadTraces :: "'t getTraces \<Rightarrow> 't traces_screen \<Rightarrow> 't traces_screen" where
  "loadTraces getTraces st =
     (case getTraces (limit (traces_pagination st)) (offset (traces_pagination st)) of
        Inl err \<Rightarrow> st\<lparr>traces_loading := False, traces_error := Some err\<rparr>
      | Inr (ts, tot) \<Rightarrow>
          st\<lparr>traces := ts,
             traces_pagination := (traces_pagination st)\<lparr>total' := tot\<rparr>,
             traces_loading := False, traces_error := None\<rparr>)"

text \<open>
  \<^verbatim>\<open>useEffect(() => { loadTraces(); }, [loadTraces])\<close>, where
  \<^verbatim>\<open>loadTraces\<close> is a \<^verbatim>\<open>useCallback\<close> with the dependencies
  \<^verbatim>\<open>[pagination.limit, pagination.offset]\<close>: after a state change the traces
  are loaded again exactly when the limit or the offset differs from the one before.
\<close>

definition traces_effect ::
    "'t getTraces \<Rightarrow> 't traces_screen \<Rightarrow> 't traces_screen \<Rightarrow> 't traces_screen" where
  "traces_effect getTraces before st =
     (if (limit (traces_pagination st), offset (traces_pagination st))
           = (limit (traces_pagination before), offset (traces_pagination before))
      then st else loadTraces getTraces st)"

text \<open>
  The next-page and the previous-page operation of the traces screen: the handler,
  followed by the effect.
\<close>

definition traces_nextPage ::
    "'t getTraces \<Rightarrow> 't traces_screen \<Rightarrow> 't traces_screen outcome" where
  "traces_nextPage getTraces st =
     Returned (traces_effect getTraces st
       (st\<lparr>traces_pagination := traces_handleNextPage (traces_pagination st)\<rparr>))"

definition traces_prevPage ::
    "'t getTraces \<Rightarrow> 't traces_screen \<Rightarrow> 't traces_screen outcome" where
  "traces_prevPage getTraces st =
     Returned (traces_effect getTraces st
       (st\<lparr>traces_pagination := traces_handlePrevPage (traces_pagination st)\<rparr>))"

text \<open>
  The pagination states of the traces screen: the initial one,
  \<^verbatim>\<open>{limit: 25, offset: 0, total: 0}\<close>, and those that the three calls of
  \<^verbatim>\<open>setPagination\<close> lead to: \<^verbatim>\<open>loadTraces\<close> stores the total of an
  answer, whatever it is, and the two handlers move the offset.
\<close>

inductive traces_pagination_reachable :: "pagination \<Rightarrow> bool" where
  initial: "traces_pagination_reachable \<lparr>limit = 25, offset = 0, total' = 0\<rparr>"
| new_total: "traces_pagination_reachable p
      \<Longrightarrow> traces_pagination_reachable (p\<lparr>total' := tot\<rparr>)"
| next_page: "traces_pagination_reachable p
      \<Longrightarrow> traces_pagination_reachable (traces_handleNextPage p)"
| prev_page: "traces_pagination_reachable p
      \<Longrightarrow> traces_pagination_reachable (traces_handlePrevPage p)"

section \<open>Memory responses and the memory screen\<close>

text \<open>
  A field of a JSON object is absent, \<^verbatim>\<open>null\<close>, or has a value. The memory
  endpoint answers with \<^verbatim>\<open>{mode, conversations?, messages?, total}\<close>; older
  backends answered with \<^verbatim>\<open>entries\<close>. The element types are left open.
\<close>

datatype 'a field = Absent | Null | Value 'a

record ('c, 'e) memory_response =
  response_mode :: "string field"
  response_conversations :: "'c list field"
  response_messages :: "'e list field"
  response_entries :: "'e list field"
  response_total :: int

text \<open>
  \<^verbatim>\<open>agentAPI.getMemory(limit, offset)\<close>: the backend's answer to a request, or
  the message of the error it throws.
\<close>

type_synonym ('c, 'e) getMemory = "int \<Rightarrow> int \<Rightarrow> string + ('c, 'e) memory_response"

text \<open>The state of \<^verbatim>\<open>MemoryScreen\<close> that its loaders and page handlers touch.\<close>

record ('c, 'e) memory_screen =
  conversations :: "'c list"
  conversationsLoading :: bool
  messages :: "'e list"
  messagesLoading :: bool
  messagesTotal :: int
  messagesOffset :: int
  messagesLimit :: int
  error :: "string option"

text \<open>
  \<^verbatim>\<open>loadConversations\<close>: \<^verbatim>\<open>response.mode === 'conversations' && response.conversations\<close>
  selects the list (an array is truthy, also when empty); every other answer sets the
  empty list; a thrown error is stored.
\<close>

definition loadConversations ::
    "('c, 'e) getMemory \<Rightarrow> ('c, 'e) memory_screen \<Rightarrow> ('c, 'e) memory_screen" where
  "loadConversations getMemory st =
     (case getMemory 100 0 of
        Inl err \<Rightarrow> st\<lparr>conversationsLoading := False, error := Some err\<rparr>
      | Inr response \<Rightarrow>
          (case response_conversations response of
             Value cs \<Rightarrow>
               if response_mode response = Value ''conversations''
               then st\<lparr>conversations := cs, conversationsLoading := False, error := None\<rparr>
               else st\<lparr>conversations := [], conversationsLoading := False, error := None\<rparr>
           | _ \<Rightarrow> st\<lparr>conversations := [], conversationsLoading := False, error := None\<rparr>))"

text \<open>
  \<^verbatim>\<open>agentAPI.getConversationMessages(conversationId, limit, offset)\<close>.
\<close>

type_synonym ('c, 'e) getConversationMessages =
  "string \<Rightarrow> int \<Rightarrow> int \<Rightarrow> string + ('c, 'e) memory_response"

text \<open>
  \<^verbatim>\<open>loadMessages\<close>, for the selected conversation (\<^verbatim>\<open>null\<close> and the empty
  string are falsy: nothing is loaded): a \<^verbatim>\<open>messages\<close> answer replaces the
  displayed messages and the total, any other answer leaves both as they were; a thrown
  error is stored.
\<close>

definition loadMessages ::
    "('c, 'e) getConversationMessages \<Rightarrow> string option
      \<Rightarrow> ('c, 'e) memory_screen \<Rightarrow> ('c, 'e) memory_screen" where
  "loadMessages getConversationMessages selectedConversationId st =
     (case selectedConversationId of
        None \<Rightarrow> st
      | Some c \<Rightarrow>
          if c = [] then st
          else
            (case getConversationMessages c (messagesLimit st) (messagesOffset st) of
               Inl err \<Rightarrow> st\<lparr>messagesLoading := False, error := Some err\<rparr>
             | Inr response \<Rightarrow>
                 (case response_messages response of
                    Value ms \<Rightarrow>
                      if response_mode response = Value ''messages''
                      then st\<lparr>messages := ms, messagesLoading := False,
                              messagesTotal := response_total response, error := None\<rparr>
                      else st\<lparr>messagesLoading := False, error := None\<rparr>
                  | _ \<Rightarrow> st\<lparr>messagesLoading := False, error := None\<rparr>)))"

text \<open>
  \<^verbatim>\<open>handleNextPage\<close> and \<^verbatim>\<open>handlePrevPage\<close> of \<^verbatim>\<open>memory-screen.tsx\<close>.
  Unlike those of the traces screen they have no guard of their own: the guard is the
  \<^verbatim>\<open>disabled\<close> condition of the button that calls them.
\<close>

definition memory_handleNextPage :: "('c, 'e) memory_screen \<Rightarrow> ('c, 'e) memory_screen" where
  "memory_handleNextPage st = st\<lparr>messagesOffset := messagesOffset st + messagesLimit st\<rparr>"

definition memory_handlePrevPage :: "('c, 'e) memory_screen \<Rightarrow> ('c, 'e) memory_screen" where
  "memory_handlePrevPage st =
     st\<lparr>messagesOffset := max 0 (messagesOffset st - messagesLimit st)\<rparr>"

text \<open>
  Modelled from the spec: the \<^verbatim>\<open>Button\<close> component
  (\<^verbatim>\<open>@/components/ui/button\<close>) is not among the sources. The specification
  calls the page operations "guarded, not errors"; the guard that
  \<^verbatim>\<open>memory-screen.tsx\<close> gives its two buttons is the attribute
  \<^verbatim>\<open>disabled\<close>, read here as that of an HTML button: a click calls
  \<^verbatim>\<open>onClick\<close> unless the button is disabled, and a button that is not rendered
  cannot be clicked.
\<close>

record 's button =
  onClick :: "'s \<Rightarrow> 's"
  disabled :: bool

definition click :: "'s button option \<Rightarrow> 's \<Rightarrow> 's" where
  "click b st =
     (case b of
        None \<Rightarrow> st
      | Some b \<Rightarrow> if disabled b then st else onClick b st)"

text \<open>
  The two buttons of the pagination bar of \<^verbatim>\<open>memory-screen.tsx\<close>, as its JSX
  has them: the bar is rendered when \<^verbatim>\<open>totalPages > 1\<close>; Previous is disabled
  when \<^verbatim>\<open>currentPage === 1 || messagesLoading\<close>, Next when
  \<^verbatim>\<open>currentPage === totalPages || messagesLoading\<close>.
\<close>

definition memory_prevButton ::
    "('c, 'e) memory_screen \<Rightarrow> ('c, 'e) memory_screen button option" where
  "memory_prevButton st =
     (let totalPages = totalPages (messagesTotal st) (messagesLimit st);
          currentPage = currentPage (messagesOffset st) (messagesLimit st)
      in if totalPages > 1
         then Some \<lparr>onClick = memory_handlePrevPage,
                    disabled = (currentPage = 1 \<or> messagesLoading st)\<rparr>
         else None)"

definition memory_nextButton ::
    "('c, 'e) memory_screen \<Rightarrow> ('c, 'e) memory_screen button option" where
  "memory_nextButton st =
     (let totalPages = totalPages (messagesTotal st) (messagesLimit st);
          currentPage = currentPage (messagesOffset st) (messagesLimit st)
      in if totalPages > 1
         then Some \<lparr>onClick = memory_handleNextPage,
                    disabled = (currentPage = totalPages \<or> messagesLoading st)\<rparr>
         else None)"

text \<open>
  The effect with the dependencies
  \<^verbatim>\<open>[selectedConversationId, messagesOffset, loadMessages]\<close>, where
  \<^verbatim>\<open>loadMessages\<close> depends on the conversation, the limit and the offset: with
  the conversation unchanged, the messages are loaded again exactly when the limit or
  the offset differs from the one before.
\<close>

definition memory_effect ::
    "('c, 'e) getConversationMessages \<Rightarrow> string option
      \<Rightarrow> ('c, 'e) memory_screen \<Rightarrow> ('c, 'e) memory_screen \<Rightarrow> ('c, 'e) memory_screen" where
  "memory_effect getConversationMessages selectedConversationId before st =
     (if (messagesLimit st, messagesOffset st) = (messagesLimit before, messagesOffset before)
      then st else loadMessages getConversationMessages selectedConversationId st)"

text \<open>
  The next-page and the previous-page operation of the memory screen: a click on the
  button, followed by the effect.
\<close>

definition memory_nextPage ::
    "('c, 'e) getConversationMessages \<Rightarrow> string option
      \<Rightarrow> ('c, 'e) memory_screen \<Rightarrow> ('c, 'e) memory_screen outcome" where
  "memory_nextPage getConversationMessages selectedConversationId st =
     Returned (memory_effect getConversationMessages selectedConversationId st
       (click (memory_nextButton st) st))"

definition memory_prevPage ::
    "('c, 'e) getConversationMessages \<Rightarrow> string option
      \<Rightarrow> ('c, 'e) memory_screen \<Rightarrow> ('c, 'e) memory_screen outcome" where
  "memory_prevPage getConversationMessages selectedConversationId st =
     Returned (memory_effect getConversationMessages selectedConversationId st
       (click (memory_prevButton st) st))"

section \<open>The memory browser\<close>

text \<open>The state of \<^verbatim>\<open>MemoryBrowser\<close> that \<^verbatim>\<open>loadMemory\<close> and \<^verbatim>\<open>loadMore\<close> touch.\<close>

record 'e memory_browser =
  entries :: "'e list"
  pagination :: pagination
  loading :: bool

text \<open>
  \<^verbatim>\<open>loadMemory\<close>: a \<^verbatim>\<open>messages\<close> answer replaces the entries; otherwise an
  answer with the key \<^verbatim>\<open>entries\<close> replaces them with
  \<^verbatim>\<open>legacyResponse.entries || []\<close>; any other answer leaves them as they are
  (there is no \<^verbatim>\<open>else\<close>). The total is taken from every answer. A thrown
  error is logged and changes nothing.
\<close>

definition loadMemory :: "('c, 'e) getMemory \<Rightarrow> 'e memory_browser \<Rightarrow> 'e memory_browser" where
  "loadMemory getMemory st =
     (case getMemory (limit (pagination st)) (offset (pagination st)) of
        Inl err \<Rightarrow> st\<lparr>loading := False\<rparr>
      | Inr response \<Rightarrow>
          (let st1 =
             (case (response_mode response = Value ''messages'', response_messages response) of
                (True, Value ms) \<Rightarrow> st\<lparr>entries := ms\<rparr>
              | _ \<Rightarrow>
                 (case response_entries response of
                    Absent \<Rightarrow> st
                  | Null \<Rightarrow> st\<lparr>entries := []\<rparr>
                  | Value es \<Rightarrow> st\<lparr>entries := es\<rparr>))
           in st1\<lparr>pagination := (pagination st1)\<lparr>total' := response_total response\<rparr>,
                   loading := False\<rparr>))"

text \<open>
  \<^verbatim>\<open>loadMore\<close>: the request is made at \<^verbatim>\<open>offset + limit\<close>;
  \<^verbatim>\<open>newEntries\<close> starts empty and is selected as in \<^verbatim>\<open>loadMemory\<close>; the new
  entries are appended and the offset is set to the requested one. A thrown error is
  logged and changes nothing.
\<close>

definition newEntries :: "('c, 'e) memory_response \<Rightarrow> 'e list" where
  "newEntries response =
     (case (response_mode response = Value ''messages'', response_messages response) of
        (True, Value ms) \<Rightarrow> ms
      | _ \<Rightarrow>
         (case response_entries response of
            Absent \<Rightarrow> []
          | Null \<Rightarrow> []
          | Value es \<Rightarrow> es))"

definition loadMore :: "('c, 'e) getMemory \<Rightarrow> 'e memory_browser \<Rightarrow> 'e memory_browser" where
  "loadMore getMemory st =
     (let newOffset = offset (pagination st) + limit (pagination st) in
      case getMemory (limit (pagination st)) newOffset of
        Inl err \<Rightarrow> st\<lparr>loading := False\<rparr>
      | Inr response \<Rightarrow>
          st\<lparr>entries := entries st @ newEntries response,
             pagination := (pagination st)\<lparr>offset := newOffset\<rparr>,
             loading := False\<rparr>)"

text \<open>
  \<^verbatim>\<open>useEffect(() => { if (open) { loadMemory(); } }, [open, loadMemory])\<close>,
  where \<^verbatim>\<open>loadMemory\<close> is a \<^verbatim>\<open>useCallback\<close> with the dependencies
  \<^verbatim>\<open>[pagination.limit, pagination.offset]\<close>: with \<^verbatim>\<open>open\<close> unchanged,
  the effect runs after a state change exactly when the limit or the offset differs
  from the one before, and then loads the memory if the browser is open.
\<close>

definition browser_effect ::
    "('c, 'e) getMemory \<Rightarrow> bool \<Rightarrow> 'e memory_browser \<Rightarrow> 'e memory_browser
      \<Rightarrow> 'e memory_browser" where
  "browser_effect getMemory is_open before st =
     (if (limit (pagination st), offset (pagination st))
           = (limit (pagination before), offset (pagination before))
      then st
      else if is_open then loadMemory getMemory st else st)"

text \<open>
  The load-more operation of the component: \<^verbatim>\<open>loadMore\<close>, followed by the
  effect.
\<close>

definition loadMore_operation ::
    "('c, 'e) getMemory \<Rightarrow> bool \<Rightarrow> 'e memory_browser \<Rightarrow> 'e memory_browser" where
  "loadMore_operation getMemory is_open st =
     browser_effect getMemory is_open st (loadMore getMemory st)"

text \<open>Backends and states for the examples below.\<close>

definition conversations_backend :: "(string, nat) getMemory" where
  "conversations_backend l ofs =
     Inr \<lparr>response_mode = Value ''conversations'',
          response_conversations = Value [''conv_1'', ''conv_2''],
          response_messages = Absent, response_entries = Absent, response_total = 2\<rparr>"

definition messages_backend :: "(string, nat) getMemory" where
  "messages_backend l ofs =
     Inr \<lparr>response_mode = Value ''messages'', response_conversations = Absent,
          response_messages = Value [1, 2],
          response_entries = Absent, response_total = 5\<rparr>"

definition bare_backend :: "(string, nat) getMemory" where
  "bare_backend l ofs =
     Inr \<lparr>response_mode = Absent, response_conversations = Absent,
          response_messages = Absent, response_entries = Absent, response_total = 0\<rparr>"

definition legacy_backend :: "(string, nat) getMemory" where
  "legacy_backend l ofs =
     Inr \<lparr>response_mode = Absent, response_conversations = Absent,
          response_messages = Absent, response_entries = Value [7, 8], response_total = 2\<rparr>"

definition loaded_browser :: "nat memory_browser" where
  "loaded_browser =
     \<lparr>entries = [0, 1], pagination = \<lparr>limit = 2, offset = 0, total' = 5\<rparr>, loading = False\<rparr>"

definition last_page_screen :: "(string, nat) memory_screen" where
  "last_page_screen =
     \<lparr>conversations = [], conversationsLoading = False, messages = [],
      messagesLoading = False, messagesTotal = 100, messagesOffset = 50,
      messagesLimit = 50, error = None\<rparr>"

text \<open>
  A backend with 120 messages, numbered from 0, that answers a request with the page
  asked for; and the open browser after its first load from it (limit 50, as in the
  initial state of the component).
\<close>

definition paged_backend :: "(string, nat) getMemory" where
  "paged_backend l ofs =
     Inr \<lparr>response_mode = Value ''messages'', response_conversations = Absent,
          response_messages = Value [nat ofs ..< min (nat ofs + nat l) 120],
          response_entries = Absent, response_total = 120\<rparr>"

definition first_page_browser :: "nat memory_browser" where
  "first_page_browser =
     \<lparr>entries = [0 ..< 50], pagination = \<lparr>limit = 50, offset = 0, total' = 120\<rparr>,
      loading = False\<rparr>"

text \<open>
  A backend with 50 traces, numbered from 0, and the two pages of the traces screen
  with it; a backend for the messages of a conversation.
\<close>

definition two_page_traces :: "nat getTraces" where
  "two_page_traces l ofs = Inr ([nat ofs ..< min (nat ofs + nat l) 50], 50)"

definition first_traces_page :: "nat traces_screen" where
  "first_traces_page =
     \<lparr>traces = [0 ..< 25], traces_pagination = \<lparr>limit = 25, offset = 0, total' = 50\<rparr>,
      traces_loading = False, traces_error = None\<rparr>"

definition last_traces_page :: "nat traces_screen" where
  "last_traces_page =
     \<lparr>traces = [25 ..< 50], traces_pagination = \<lparr>limit = 25, offset = 25, total' = 50\<rparr>,
      traces_loading = False, traces_error = None\<rparr>"

definition conversation_backend :: "(string, nat) getConversationMessages" where
  "conversation_backend c = messages_backend"
section \<open>Trace tree builder\<close>

text \<open>
  \<^verbatim>\<open>buildSpanHierarchy\<close> of the trace detail viewer. A span has an \<^verbatim>\<open>id\<close> and
  an optional \<^verbatim>\<open>parent_id\<close> (\<open>None\<close> when the field is missing or
  \<^verbatim>\<open>null\<close>); its other fields ride along in the extension of the record.
\<close>

record span =
  span_id :: string
  parent_id :: "string option"

text \<open>
  \<^verbatim>\<open>SpanWithChildren\<close>: the span with a \<^verbatim>\<open>children\<close> array. The arrays hold
  references to the node objects stored in \<^verbatim>\<open>spanMap\<close>; every node object is the
  value of exactly one key of the map, so a reference is modelled by that key and
  the map is the store of the node objects.
\<close>

record 'a node =
  node_span :: "'a span_scheme"
  children :: "string list"

type_synonym 'a spanMap = "string \<rightharpoonup> 'a node"

text \<open>First pass: \<^verbatim>\<open>spanMap.set(span.id, { ...span, children: [] })\<close>.\<close>

definition set_node :: "'a spanMap \<Rightarrow> 'a span_scheme \<Rightarrow> 'a spanMap" where
  "set_node m s = m(span_id s \<mapsto> \<lparr>node_span = s, children = []\<rparr>)"

text \<open>
  Second pass. \<^verbatim>\<open>span.parent_id && spanMap.has(span.parent_id)\<close> is false for a
  missing parent id, for the empty string (which is falsy) and for an id that is not a
  key; then the node goes to \<^verbatim>\<open>rootSpans\<close>, otherwise to the end of its parent's
  \<^verbatim>\<open>children\<close>.
\<close>

definition link :: "'a spanMap \<times> string list \<Rightarrow> 'a span_scheme \<Rightarrow> 'a spanMap \<times> string list" where
  "link st s =
     (case st of (m, rootSpans) \<Rightarrow>
        (case parent_id s of
           None \<Rightarrow> (m, rootSpans @ [span_id s])
         | Some p \<Rightarrow>
             if p \<noteq> [] then
               (case m p of
                  Some parent \<Rightarrow>
                    (m(p \<mapsto> parent\<lparr>children := children parent @ [span_id s]\<rparr>), rootSpans)
                | None \<Rightarrow> (m, rootSpans @ [span_id s]))
             else (m, rootSpans @ [span_id s])))"

text \<open>
  The result is \<^verbatim>\<open>rootSpans\<close>, returned here together with the store that its
  references point into.
\<close>

definition buildSpanHierarchy :: "'a span_scheme list \<Rightarrow> string list \<times> 'a spanMap" where
  "buildSpanHierarchy spans =
     (let spanMap = foldl set_node Map.empty spans;
          (m, rootSpans) = foldl link (spanMap, []) spans
      in (rootSpans, m))"

text \<open>
  The nodes of a forest, read as \<^verbatim>\<open>renderSpanTree\<close> walks it: every node of the
  list, each followed by the nodes below it. The walk is bounded by a depth; it
  gives \<open>None\<close> when the forest is deeper than the bound (as a forest with a cycle
  is for every bound) or when a reference points nowhere.
\<close>

fun forest_nodes :: "nat \<Rightarrow> 'a spanMap \<Rightarrow> string list \<Rightarrow> 'a span_scheme list option" where
  "forest_nodes 0 m [] = Some []"
| "forest_nodes 0 m (k # ks) = None"
| "forest_nodes (Suc n) m [] = Some []"
| "forest_nodes (Suc n) m (k # ks) =
     (case m k of
        None \<Rightarrow> None
      | Some nd \<Rightarrow>
          (case forest_nodes n m (children nd) of
             None \<Rightarrow> None
           | Some below \<Rightarrow>
               (case forest_nodes (Suc n) m ks of
                  None \<Rightarrow> None
                | Some others \<Rightarrow> Some (node_span nd # below @ others))))"

text \<open>
  The hypotheses of the claim: the ids are unique, and no span is transitively its own
  ancestor, where the parent of a span is the span whose id is its \<^verbatim>\<open>parent_id\<close>.
\<close>

definition parent_edges :: "'a span_scheme list \<Rightarrow> (string \<times> string) set" where
  "parent_edges spans = {(span_id c, p) | c p. c \<in> set spans \<and> parent_id c = Some p}"

definition no_self_ancestor :: "'a span_scheme list \<Rightarrow> bool" where
  "no_self_ancestor spans = (\<forall>s\<in>set spans. (span_id s, span_id s) \<notin> (parent_edges spans)\<^sup>+)"

text \<open>
  The parent that the builder gives a span: its \<^verbatim>\<open>parent_id\<close> when that is a
  non-empty id of the list.
\<close>

definition attached_to :: "'a span_scheme list \<Rightarrow> 'a span_scheme \<Rightarrow> string option" where
  "attached_to spans s =
     (case parent_id s of
        None \<Rightarrow> None
      | Some p \<Rightarrow> if p \<noteq> [] \<and> p \<in> span_id ` set spans then Some p else None)"

text \<open>
  Notions for the proofs. The test of the second pass, and the effect of its pushes
  on a node.
\<close>

definition has_parent :: "'a spanMap \<Rightarrow> 'a span_scheme \<Rightarrow> bool" where
  "has_parent m s = (case parent_id s of None \<Rightarrow> False | Some p \<Rightarrow> p \<noteq> [] \<and> m p \<noteq> None)"

definition add_children :: "string list \<Rightarrow> 'a node \<Rightarrow> 'a node" where
  "add_children ks nd = nd\<lparr>children := children nd @ ks\<rparr>"

text \<open>
  The parent that the builder gives to the span with id \<open>k\<close>, and that span.
\<close>

definition parent_of :: "'a span_scheme list \<Rightarrow> string \<Rightarrow> string option" where
  "parent_of spans k =
     (case find (\<lambda>s. span_id s = k) spans of None \<Rightarrow> None | Some s \<Rightarrow> attached_to spans s)"

definition span_of :: "'a span_scheme list \<Rightarrow> string \<Rightarrow> 'a span_scheme" where
  "span_of spans k = the (find (\<lambda>s. span_id s = k) spans)"

text \<open>
  For a parent function \<open>P\<close> on ids: the \<open>n\<close>-th ancestor of \<open>k\<close> (\<open>None\<close> when
  the chain of parents ends before), the ids at depth \<open>n\<close> (the chain has exactly
  \<open>n\<close> steps), the children of \<open>k\<close> among \<open>ids\<close> in the order of \<open>ids\<close>, and, for
  a children function \<open>c\<close>, the \<open>n\<close>-th generation below a list of ids.
\<close>

fun nth_ancestor :: "('k \<Rightarrow> 'k option) \<Rightarrow> nat \<Rightarrow> 'k \<Rightarrow> 'k option" where
  "nth_ancestor P 0 k = Some k"
| "nth_ancestor P (Suc n) k = (case P k of None \<Rightarrow> None | Some p \<Rightarrow> nth_ancestor P n p)"

definition at_depth :: "('k \<Rightarrow> 'k option) \<Rightarrow> nat \<Rightarrow> 'k \<Rightarrow> bool" where
  "at_depth P n k = (nth_ancestor P n k \<noteq> None \<and> nth_ancestor P (Suc n) k = None)"

definition children_of :: "('k \<Rightarrow> 'k option) \<Rightarrow> 'k list \<Rightarrow> 'k \<Rightarrow> 'k list" where
  "children_of P ids k = filter (\<lambda>c. P c = Some k) ids"

fun generation :: "('k \<Rightarrow> 'k list) \<Rightarrow> nat \<Rightarrow> 'k list \<Rightarrow> 'k list" where
  "generation c 0 ks = ks"
| "generation c (Suc n) ks = generation c n (concat (map c ks))"

text \<open>Span lists for the examples below.\<close>

definition empty_id_spans :: "span list" where
  "empty_id_spans =
     [\<lparr>span_id = '''', parent_id = None\<rparr>, \<lparr>span_id = ''a'', parent_id = Some ''''\<rparr>]"

definition sample_spans :: "span list" where
  "sample_spans =
     [\<lparr>span_id = ''r11'', parent_id = Some ''r1''\<rparr>,
      \<lparr>span_id = ''r'', parent_id = None\<rparr>,
      \<lparr>span_id = ''x1'', parent_id = Some ''x''\<rparr>,
      \<lparr>span_id = ''r1'', parent_id = Some ''r''\<rparr>,
      \<lparr>span_id = ''r2'', parent_id = Some ''r''\<rparr>]"

section \<open>Properties of the pagination views\<close>

lemma round_half_even_of_int [simp]: "round_half_even (of_int j) = j"
  by (simp add: round_half_even_def)

lemma round_half_even_error: "\<bar>of_int (round_half_even m) - m\<bar> \<le> 1/2"
proof -
  define f where "f = \<lfloor>m\<rfloor>"
  have "of_int f \<le> m" "m < of_int f + 1" unfolding f_def by linarith+
  then show ?thesis
    unfolding round_half_even_def Let_def f_def[symmetric]
    by (auto simp: abs_if)
qed

lemma round_double_error:
  assumes "0 < x"
  shows "\<bar>round_double x - x\<bar> \<le> x / 2 ^ 53"
proof -
  define e where "e = \<lfloor>log 2 x\<rfloor>"
  define u :: real where "u = 2 powr (of_int e - 52)"
  define m :: real where "m = x / u"
  have u: "0 < u" by (simp add: u_def)
  have rd: "round_double x = u * of_int (round_half_even m)"
    using assms by (simp add: round_double_def Let_def e_def u_def m_def)
  have "of_int e \<le> log 2 x" by (simp add: e_def)
  then have e: "2 powr (of_int e) \<le> x"
    using assms by (simp add: le_log_iff)
  have xm: "u * m = x" using u by (simp add: m_def)
  have "round_double x - x = u * (of_int (round_half_even m) - m)"
    by (simp only: rd right_diff_distrib xm)
  then have "\<bar>round_double x - x\<bar> = u * \<bar>of_int (round_half_even m) - m\<bar>"
    using u by (simp add: abs_mult)
  also have "\<dots> \<le> u * (1/2)"
    using u round_half_even_error[of m] by (intro mult_left_mono) simp_all
  also have "\<dots> = 2 powr (of_int e) / 2 ^ 53"
  proof -
    have "u = 2 powr (of_int e) / 2 powr 52" by (simp add: u_def powr_diff)
    also have "(2::real) powr 52 = 2 ^ 52" by (simp add: powr_numeral)
    finally show ?thesis by simp
  qed
  also have "\<dots> \<le> x / 2 ^ 53"
    using e by (simp add: divide_right_mono)
  finally show ?thesis .
qed

lemma round_double_of_int:
  assumes "0 \<le> n" "n \<le> 2 ^ 53"
  shows "round_double (of_int n) = of_int n"
proof (cases "n = 0")
  case True
  then show ?thesis by (simp add: round_double_def)
next
  case False
  with assms have n1: "1 \<le> n" by simp
  define x :: real where "x = of_int n"
  have x1: "1 \<le> x" and x53: "x \<le> 2 ^ 53"
    using n1 assms(2) unfolding x_def by (simp_all add: of_int_le_iff[of n "2^53", simplified] )
  define e where "e = \<lfloor>log 2 x\<rfloor>"
  define u :: real where "u = 2 powr (of_int e - 52)"
  have u: "0 < u" by (simp add: u_def)
  have "0 \<le> log 2 x" using x1 by simp
  then have e0: "0 \<le> e" by (simp add: e_def)
  have "log 2 x \<le> log 2 (2 ^ 53)" using x1 x53 by simp
  also have "log 2 ((2::real) ^ 53) = (53::real)" by (subst log_nat_power) simp_all
  finally have e53: "e \<le> 53" unfolding e_def by (simp add: floor_le_iff)
  have elow: "2 powr (of_int e) \<le> x"
    using x1 by (simp add: e_def le_log_iff[symmetric])
  have "\<exists>j. x / u = of_int j"
  proof (cases "e \<le> 52")
    case True
    define k where "k = nat (52 - e)"
    have "x / u = x * 2 powr (52 - of_int e)"
      by (simp add: u_def powr_diff divide_simps)
    also have "52 - of_int e = real k" using True by (simp add: k_def)
    also have "2 powr (real k) = (2::real) ^ k" by (simp add: powr_realpow)
    finally have "x / u = of_int (n * 2 ^ k)" by (simp add: x_def)
    then show ?thesis by blast
  next
    case False
    with e53 have e: "e = 53" by simp
    with elow have "(2::real) ^ 53 \<le> x" by (simp add: powr_numeral)
    with x53 have x: "x = 2 ^ 53" by simp
    have "u = 2" by (simp add: u_def e)
    then have "x / u = of_int (2 ^ 52)" by (simp add: x)
    then show ?thesis by blast
  qed
  then obtain j where j: "x / u = of_int j" by blast
  have "round_double x = u * of_int (round_half_even (x / u))"
    using x1 by (simp add: round_double_def Let_def e_def u_def)
  also have "\<dots> = u * (x / u)" by (simp add: j)
  also have "\<dots> = x" using u by simp
  finally show ?thesis by (simp add: x_def)
qed

lemma int_div_le_self:
  assumes "0 \<le> (a::int)" "0 < b"
  shows "a div b \<le> a"
proof -
  have n: "0 \<le> a div b" using assms by (simp add: pos_imp_zdiv_nonneg_iff)
  have "a = (a div b) * b + a mod b" by simp
  moreover have "0 \<le> a mod b" using assms(2) by simp
  ultimately have "(a div b) * b \<le> a" by linarith
  moreover have "(a div b) * 1 \<le> (a div b) * b"
    using n assms(2) by (intro mult_left_mono) simp_all
  ultimately show ?thesis by simp
qed

lemma quotient_exact:
  assumes "0 < b" "a mod b = 0"
  shows "real_of_int a / real_of_int b = of_int (a div b)"
  using real_of_int_div[of b a] assms(2) by (simp add: dvd_eq_mod_eq_0)

lemma quotient_between:
  assumes b: "0 < b" and r: "a mod b \<noteq> 0"
  shows "of_int (a div b) + 1 / of_int b \<le> real_of_int a / real_of_int b"
    and "real_of_int a / real_of_int b \<le> of_int (a div b) + 1 - 1 / of_int b"
proof -
  define n where "n = a div b"
  define k where "k = a mod b"
  have rb: "0 < real_of_int b" using b by simp
  have k: "1 \<le> k" "k \<le> b - 1"
    using r b pos_mod_sign[of b a] pos_mod_bound[of b a] unfolding k_def by linarith+
  have "n * b + k = a" by (simp add: n_def k_def)
  then have "real_of_int a = real_of_int n * real_of_int b + real_of_int k"
    by (metis of_int_add of_int_mult)
  then have qeq: "real_of_int a / real_of_int b = of_int n + of_int k / of_int b"
    using rb by (simp add: field_simps)
  have k1: "1 \<le> real_of_int k" using k(1) by simp
  have k2: "real_of_int k \<le> real_of_int b - 1" using k(2) by linarith
  have "1 / real_of_int b \<le> real_of_int k / real_of_int b"
    using k1 rb by (intro divide_right_mono) simp_all
  then show "of_int (a div b) + 1 / of_int b \<le> real_of_int a / real_of_int b"
    unfolding qeq n_def by simp
  have "real_of_int k / real_of_int b \<le> (real_of_int b - 1) / real_of_int b"
    using k2 rb by (intro divide_right_mono) simp_all
  also have "\<dots> = 1 - 1 / real_of_int b" using rb by (simp add: field_simps)
  finally show "real_of_int a / real_of_int b \<le> of_int (a div b) + 1 - 1 / of_int b"
    unfolding qeq n_def by simp
qed

lemma round_quotient_bounds:
  assumes a: "0 \<le> a" "a < 2 ^ 53" and b: "0 < b" and r: "a mod b \<noteq> 0"
  shows "of_int (a div b) < round_double (of_int a / of_int b)"
    and "round_double (of_int a / of_int b) < of_int (a div b) + 1"
proof -
  define q :: real where "q = of_int a / of_int b"
  have rb: "0 < real_of_int b" using b by simp
  have apos: "0 < a" using r a(1) by (cases "a = 0") simp_all
  then have qpos: "0 < q" using rb by (simp add: q_def)
  note lo = quotient_between(1)[OF b r] and hi = quotient_between(2)[OF b r]
  have "real_of_int a < of_int (2 ^ 53)" using a(2) by (rule iffD2[OF of_int_less_iff])
  then have "real_of_int a < 2 ^ 53" by simp
  then have "real_of_int a / 2 ^ 53 < 1" by simp
  then have "real_of_int a / 2 ^ 53 / real_of_int b < 1 / real_of_int b"
    using rb by (intro divide_strict_right_mono) simp_all
  then have "q / 2 ^ 53 < 1 / of_int b"
    by (simp add: q_def)
  with round_double_error[OF qpos]
  have err: "\<bar>round_double q - q\<bar> < 1 / of_int b" by simp
  from err lo show "of_int (a div b) < round_double (of_int a / of_int b)"
    unfolding q_def[symmetric] by linarith
  from err hi show "round_double (of_int a / of_int b) < of_int (a div b) + 1"
    unfolding q_def[symmetric] by linarith
qed

lemma round_quotient_exact:
  assumes a: "0 \<le> a" "a < 2 ^ 53" and b: "0 < b" and r: "a mod b = 0"
  shows "round_double (of_int a / of_int b) = of_int (a div b)"
proof -
  have "0 \<le> a div b" using a(1) b by (simp add: pos_imp_zdiv_nonneg_iff)
  moreover have "a div b \<le> a" using a(1) b by (rule int_div_le_self)
  ultimately show ?thesis
    unfolding quotient_exact[OF b r] using a(2) by (intro round_double_of_int) simp_all
qed

lemma floor_round_quotient:
  assumes "0 \<le> a" "a < 2 ^ 53" "0 < b"
  shows "\<lfloor>round_double (of_int a / of_int b)\<rfloor> = \<lfloor>real_of_int a / real_of_int b\<rfloor>"
proof (cases "a mod b = 0")
  case True
  show ?thesis
    by (simp only: quotient_exact[OF assms(3) True]
          round_quotient_exact[OF assms True, unfolded quotient_exact[OF assms(3) True]])
next
  case False
  from round_quotient_bounds[OF assms False]
  have 1: "\<lfloor>round_double (of_int a / of_int b)\<rfloor> = a div b"
    by (intro floor_unique) simp_all
  show ?thesis unfolding 1 by (simp add: floor_divide_of_int_eq)
qed

lemma ceiling_round_quotient:
  assumes "0 \<le> a" "a < 2 ^ 53" "0 < b"
  shows "\<lceil>round_double (of_int a / of_int b)\<rceil> = \<lceil>real_of_int a / real_of_int b\<rceil>"
proof (cases "a mod b = 0")
  case True
  show ?thesis
    by (simp only: quotient_exact[OF assms(3) True]
          round_quotient_exact[OF assms True, unfolded quotient_exact[OF assms(3) True]])
next
  case False
  have rb: "0 < real_of_int b" using assms(3) by simp
  then have ib: "0 < 1 / real_of_int b" by simp
  from round_quotient_bounds[OF assms False]
  have 1: "\<lceil>round_double (of_int a / of_int b)\<rceil> = a div b + 1"
    by (intro ceiling_unique) simp_all
  from quotient_between[OF assms(3) False] ib
  have "real_of_int (a div b) < real_of_int a / real_of_int b"
    "real_of_int a / real_of_int b \<le> real_of_int (a div b) + 1"
    by linarith+
  then have "\<lceil>real_of_int a / real_of_int b\<rceil> = a div b + 1"
    by (intro ceiling_unique) simp_all
  with 1 show ?thesis by simp
qed

lemma currentPage_exact:
  assumes "0 \<le> ofs" "ofs < 2 ^ 53" "0 < lmt"
  shows "currentPage ofs lmt = \<lfloor>real_of_int ofs / real_of_int lmt\<rfloor> + 1"
proof -
  define n where "n = \<lfloor>real_of_int ofs / real_of_int lmt\<rfloor>"
  have n: "n = ofs div lmt" by (simp add: n_def floor_divide_of_int_eq)
  have "0 \<le> ofs div lmt" using assms by (simp add: pos_imp_zdiv_nonneg_iff)
  moreover have "ofs div lmt \<le> ofs" using assms(1,3) by (rule int_div_le_self)
  ultimately have "0 \<le> n + 1" "n + 1 \<le> 2 ^ 53" using assms(2) n by simp_all
  then have "round_double (of_int (n + 1)) = of_int (n + 1)"
    by (rule round_double_of_int)
  then have "\<lfloor>round_double (of_int n + 1)\<rfloor> = n + 1" by simp
  then show ?thesis
    unfolding currentPage_def floor_round_quotient[OF assms] n_def .
qed

lemma totalPages_exact:
  assumes "0 \<le> tot" "tot < 2 ^ 53" "0 < lmt"
  shows "totalPages tot lmt = \<lceil>real_of_int tot / real_of_int lmt\<rceil>"
  unfolding totalPages_def by (rule ceiling_round_quotient[OF assms])

text \<open>
  For integers below \<open>2^53\<close> the views compute the exact floor and ceiling of the
  quotient.
\<close>

lemma currentPage_div:
  assumes "0 \<le> ofs" "ofs < 2 ^ 53" "0 < lmt"
  shows "currentPage ofs lmt = ofs div lmt + 1"
  by (simp add: currentPage_exact[OF assms] floor_divide_of_int_eq)

lemma totalPages_div:
  assumes "0 \<le> tot" "tot < 2 ^ 53" "0 < lmt"
  shows "totalPages tot lmt = - ((- tot) div lmt)"
proof -
  have "\<lceil>real_of_int tot / real_of_int lmt\<rceil> = - \<lfloor>real_of_int (- tot) / real_of_int lmt\<rfloor>"
    by (simp add: ceiling_def)
  then show ?thesis
    unfolding totalPages_exact[OF assms] by (simp only: floor_divide_of_int_eq)
qed

lemma lt_totalPages_iff:
  assumes "0 \<le> tot" "tot < 2 ^ 53" "0 < lmt"
  shows "q < totalPages tot lmt \<longleftrightarrow> q * lmt < tot"
proof -
  have "q < totalPages tot lmt \<longleftrightarrow> real_of_int q < real_of_int tot / real_of_int lmt"
    unfolding totalPages_exact[OF assms] by (simp add: less_ceiling_iff)
  also have "\<dots> \<longleftrightarrow> real_of_int q * real_of_int lmt < real_of_int tot"
    using assms(3) by (simp add: pos_less_divide_eq)
  also have "\<dots> \<longleftrightarrow> real_of_int (q * lmt) < real_of_int tot"
    by simp
  also have "\<dots> \<longleftrightarrow> q * lmt < tot"
    by (rule of_int_less_iff)
  finally show ?thesis .
qed

lemma currentPage_pos:
  assumes "0 \<le> ofs" "ofs < 2 ^ 53" "0 < lmt"
  shows "1 \<le> currentPage ofs lmt"
  using assms by (simp add: currentPage_div pos_imp_zdiv_nonneg_iff)

lemma currentPage_le_totalPages_iff:
  assumes o: "0 \<le> ofs" "ofs < 2 ^ 53" and t: "0 \<le> tot" "tot < 2 ^ 53" and l: "0 < lmt"
  shows "currentPage ofs lmt \<le> max (totalPages tot lmt) 1
           \<longleftrightarrow> (ofs div lmt) * lmt < max tot 1"
proof (cases "tot = 0")
  case True
  have q0: "0 \<le> ofs div lmt"
    using o l by (simp add: pos_imp_zdiv_nonneg_iff)
  from True have tp: "totalPages tot lmt = 0"
    using totalPages_div[OF t l] by simp
  have "ofs div lmt \<le> 0 \<longleftrightarrow> (ofs div lmt) * lmt < 1"
  proof
    assume "ofs div lmt \<le> 0"
    with q0 have "ofs div lmt = 0" by simp
    then show "(ofs div lmt) * lmt < 1" by simp
  next
    assume a: "(ofs div lmt) * lmt < 1"
    show "ofs div lmt \<le> 0"
    proof (rule ccontr)
      assume "\<not> ofs div lmt \<le> 0"
      then have "1 \<le> ofs div lmt" by simp
      then have "1 * lmt \<le> (ofs div lmt) * lmt"
        using l by (intro mult_right_mono) simp_all
      with a l show False by simp
    qed
  qed
  with True tp show ?thesis by (simp add: currentPage_div[OF o l])
next
  case False
  with t have tp: "0 < tot" by simp
  then have "0 < totalPages tot lmt"
    using lt_totalPages_iff[OF t l, of 0] by simp
  then have m: "max (totalPages tot lmt) 1 = totalPages tot lmt" by simp
  have m2: "max tot 1 = tot" using tp by simp
  show ?thesis unfolding m m2 currentPage_div[OF o l]
    using lt_totalPages_iff[OF t l, of "ofs div lmt"]
    by (simp add: add1_zle_eq)
qed

text \<open>
  Claim C3, as stated: for all \<open>limit > 0\<close>, \<open>offset \<ge> 0\<close>, \<open>total \<ge> 0\<close> the page
  numbers satisfy \<open>1 \<le> current_page \<le> max(total_pages, 1)\<close>. The views take
  \<open>offset\<close> and \<open>total\<close> as independent inputs, and an offset beyond the total breaks
  the upper bound: \<open>limit = 10\<close>, \<open>offset = 100\<close>, \<open>total = 5\<close> gives page 11 of 1.
\<close>

theorem C3_page_bounds_counterexample:
  "(0::int) < 10 \<and> (0::int) \<le> 100 \<and> (0::int) \<le> 5 \<and>
   currentPage 100 10 = 11 \<and> totalPages 5 10 = 1 \<and>
   \<not> (1 \<le> currentPage 100 10 \<and> currentPage 100 10 \<le> max (totalPages 5 10) 1)"
proof -
  have "currentPage 100 10 = 11" by (subst currentPage_div) simp_all
  moreover have "totalPages 5 10 = 1" by (subst totalPages_div) simp_all
  ultimately show ?thesis by simp
qed

text \<open>
  Claim C3, amended: for all integers \<open>limit > 0\<close>, \<open>0 \<le> offset < 2^53\<close> and
  \<open>0 \<le> total < 2^53\<close> (the range in which Numbers count exactly) the lower bound
  \<open>1 \<le> current_page\<close> holds, and the upper bound
  \<open>current_page \<le> max(total_pages, 1)\<close> holds exactly when the first index of the
  current page, \<open>floor(offset / limit) * limit\<close>, is below \<open>max(total, 1)\<close>; in
  particular it holds whenever \<open>offset < total\<close> or \<open>offset = 0\<close>.
\<close>

theorem C3_page_bounds:
  assumes "0 < lmt" and "0 \<le> ofs" and "ofs < 2 ^ 53" and "0 \<le> tot" and "tot < 2 ^ 53"
  shows "1 \<le> currentPage ofs lmt \<and>
         (currentPage ofs lmt \<le> max (totalPages tot lmt) 1
            \<longleftrightarrow> (ofs div lmt) * lmt < max tot 1) \<and>
         (ofs < tot \<or> ofs = 0
            \<longrightarrow> currentPage ofs lmt \<le> max (totalPages tot lmt) 1)"
proof -
  have lower: "1 \<le> currentPage ofs lmt"
    using assms(2,3,1) by (rule currentPage_pos)
  have iff: "currentPage ofs lmt \<le> max (totalPages tot lmt) 1
           \<longleftrightarrow> (ofs div lmt) * lmt < max tot 1"
    using assms(2,3,4,5,1) by (rule currentPage_le_totalPages_iff)
  have below: "(ofs div lmt) * lmt \<le> ofs"
  proof -
    have "ofs = (ofs div lmt) * lmt + ofs mod lmt" by simp
    moreover have "0 \<le> ofs mod lmt" using assms(1) by simp
    ultimately show ?thesis by linarith
  qed
  have "currentPage ofs lmt \<le> max (totalPages tot lmt) 1"
    if "ofs < tot \<or> ofs = 0"
  proof -
    from that below assms have "(ofs div lmt) * lmt < max tot 1" by auto
    with iff show ?thesis by simp
  qed
  with lower iff show ?thesis by blast
qed

theorem C3_page_bounds_witness:
  "currentPage 20 10 = 3 \<and> totalPages 25 10 = 3 \<and>
   1 \<le> currentPage 20 10 \<and> currentPage 20 10 \<le> max (totalPages 25 10) 1 \<and>
   (20 div 10) * 10 < max (25::int) 1"
proof -
  have h: "(0::int) < 10" "(0::int) \<le> 20" "(20::int) < 2 ^ 53" "(0::int) \<le> 25"
    "(25::int) < 2 ^ 53" by simp_all
  have "currentPage 20 10 = 3" by (subst currentPage_div) simp_all
  moreover have "totalPages 25 10 = 3" by (subst totalPages_div) simp_all
  ultimately show ?thesis
    using C3_page_bounds[OF h] by simp
qed

section \<open>Properties of the stream decoder\<close>

lemma startsWith_iff: "startsWith s p \<longleftrightarrow> (\<exists>t. s = p @ t)"
  by (induction s p rule: startsWith.induct) auto

lemma data_line_decomp:
  assumes "startsWith l ''data: ''"
  shows "l = ''data: '' @ drop 6 l"
proof -
  from assms obtain t where "l = ''data: '' @ t"
    unfolding startsWith_iff by blast
  then show ?thesis by simp
qed

lemma event_not_data: "startsWith l ''event: '' \<Longrightarrow> \<not> startsWith l ''data: ''"
  by (cases l) auto

lemma for_lines_append:
  "for_lines parse cur (xs @ ys) =
     (case for_lines parse cur xs of
        (y1, w1, None) \<Rightarrow> (y1, w1, None)
      | (y1, w1, Some c) \<Rightarrow>
          (case for_lines parse c ys of (y2, w2, f) \<Rightarrow> (y1 @ y2, w1 @ w2, f)))"
proof (induction xs arbitrary: cur)
  case Nil
  show ?case by (simp split: prod.splits)
next
  case (Cons x xs)
  show ?case
    by (simp add: Cons.IH Let_def split: prod.splits option.splits)
qed

lemma parsed_data_Nil [simp]: "parsed_data parse [] = []"
  by (simp add: parsed_data_def)

lemma parsed_data_Cons:
  "parsed_data parse (l # ls) =
     (if startsWith l ''data: '' then
        (case parse (drop 6 l) of
           None \<Rightarrow> parsed_data parse ls
         | Some v \<Rightarrow> v # parsed_data parse ls)
      else parsed_data parse ls)"
  by (simp add: parsed_data_def split: option.splits)

lemma parsed_data_append [simp]:
  "parsed_data parse (xs @ ys) = parsed_data parse xs @ parsed_data parse ys"
  by (induction xs) (simp_all add: parsed_data_Cons split: option.splits)

lemma record_data_Cons:
  "record_data parse cur (l # ls) =
     (if startsWith l ''data: '' then
        (case parse (drop 6 l) of
           None \<Rightarrow> record_data parse cur ls
         | Some v \<Rightarrow> record_data parse (cur\<lparr>data := Some v\<rparr>) ls)
      else record_data parse cur ls)"
  by (simp add: record_data_def parsed_data_Cons split: option.splits)

lemma record_data_update [simp]:
  "record_data parse (cur\<lparr>event := e\<rparr>) ls = record_data parse cur ls"
  "record_data parse (cur\<lparr>id' := i\<rparr>) ls = record_data parse cur ls"
  by (simp_all add: record_data_def)

lemma for_lines_record:
  assumes "\<forall>l\<in>set ls. l \<noteq> [] \<and> l \<noteq> ''data: [DONE]''"
  shows "\<exists>ws cur'. for_lines parse cur ls = ([], ws, Some cur') \<and>
           data cur' = record_data parse cur ls"
  using assms
proof (induction ls arbitrary: cur)
  case Nil
  show ?case by (simp add: record_data_def)
next
  case (Cons l ls)
  from Cons.prems have l: "l \<noteq> []" "l \<noteq> ''data: [DONE]''"
    and rest: "\<forall>l\<in>set ls. l \<noteq> [] \<and> l \<noteq> ''data: [DONE]''" by simp_all
  note IH = Cons.IH[OF rest]
  show ?case
  proof (cases "startsWith l ''event: ''")
    case True
    then have nd: "\<not> startsWith l ''data: ''" by (rule event_not_data)
    from IH[of "cur\<lparr>event := Some (drop 7 l)\<rparr>"] True nd show ?thesis
      by (simp add: record_data_Cons)
  next
    case ne: False
    show ?thesis
    proof (cases "startsWith l ''data: ''")
      case True
      then have "l = ''data: '' @ drop 6 l"
        by (rule data_line_decomp)
      with l(2) have nd: "drop 6 l \<noteq> ''[DONE]''" by auto
      show ?thesis
      proof (cases "parse (drop 6 l)")
        case None
        from IH[of cur] obtain ws cur' where
          "for_lines parse cur ls = ([], ws, Some cur')"
          "data cur' = record_data parse cur ls" by blast
        with True ne nd None show ?thesis
          by (simp add: record_data_Cons)
      next
        case (Some v)
        from IH[of "cur\<lparr>data := Some v\<rparr>"] True ne nd Some show ?thesis
          by (simp add: record_data_Cons)
      qed
    next
      case nd: False
      show ?thesis
      proof (cases "startsWith l ''id: ''")
        case True
        from IH[of "cur\<lparr>id' := Some (drop 4 l)\<rparr>"] True ne nd show ?thesis
          by (simp add: record_data_Cons)
      next
        case False
        from IH[of cur] False ne nd l(1) show ?thesis
          by (simp add: record_data_Cons)
      qed
    qed
  qed
qed

lemma for_lines_blank_no_data:
  assumes "for_lines parse cur (pre @ ['''']) = (ys, ws, Some c)"
  shows "\<not> has_data c"
proof -
  obtain y1 w1 f1 where p: "for_lines parse cur pre = (y1, w1, f1)"
    by (cases "for_lines parse cur pre") auto
  with assms obtain c1 where f1: "f1 = Some c1"
    by (cases f1) (auto simp: for_lines_append)
  from assms p f1 show ?thesis
    by (auto simp: for_lines_append has_data_def empty_event_def
             split: option.splits if_splits)
qed

lemma for_lines_close_record:
  assumes ls: "\<forall>l\<in>set ls. l \<noteq> [] \<and> l \<noteq> ''data: [DONE]''"
      and cur: "\<not> has_data cur"
  shows "fst (for_lines parse cur (ls @ [''''])) =
           (if parsed_data parse ls \<noteq> [] \<and> truthy (last (parsed_data parse ls))
            then [last (parsed_data parse ls)] else [])"
proof -
  from for_lines_record[OF ls, of parse cur] obtain ws cur' where
    r: "for_lines parse cur ls = ([], ws, Some cur')"
    and d: "data cur' = record_data parse cur ls" by blast
  show ?thesis
    using r d cur
    by (auto simp: for_lines_append record_data_def has_data_def split: option.splits if_splits)
qed


lemma data_done_line:
  assumes "startsWith l ''data: ''" "drop 6 l = ''[DONE]''"
  shows "l = ''data: [DONE]''"
  using data_line_decomp[OF assms(1)] assms(2) by simp

lemma for_lines_running_aux:
  assumes "''data: [DONE]'' \<notin> set ls" "for_lines parse cur ls = (ys, ws, fin)"
  shows "fin \<noteq> None"
  using assms
proof (induction ls arbitrary: cur ys ws fin)
  case Nil
  then show ?case by auto
next
  case (Cons l ls)
  then have l: "l \<noteq> ''data: [DONE]''" and ls: "''data: [DONE]'' \<notin> set ls"
    by auto
  note IH = Cons.IH[OF ls]
  from l have nd: "startsWith l ''data: '' \<Longrightarrow> drop 6 l \<noteq> ''[DONE]''"
    using data_done_line by blast
  show ?case
    using Cons.prems(2) nd
    by (auto simp: Let_def split: option.splits prod.splits if_splits dest: IH)
qed

lemma for_lines_running:
  assumes "''data: [DONE]'' \<notin> set ls"
  shows "\<exists>c. snd (snd (for_lines parse cur ls)) = Some c"
  using for_lines_running_aux[OF assms, of parse cur]
  by (cases "for_lines parse cur ls") auto

lemma for_lines_done:
  "for_lines parse cur (pre @ ''data: [DONE]'' # post) =
     (case for_lines parse cur pre of (ys, ws, fin) \<Rightarrow> (ys, ws, None))"
  by (simp add: for_lines_append split: prod.splits option.splits)

lemma for_lines_bad_data:
  assumes "parse p = None" "p \<noteq> ''[DONE]''"
  shows "for_lines parse cur ((''data: '' @ p) # rest) =
           (case for_lines parse cur rest of (ys, ws, fin) \<Rightarrow> (ys, p # ws, fin))"
  using assms by simp

lemma for_lines_skip_bad:
  assumes "parse p = None" "p \<noteq> ''[DONE]''"
  shows "fst (for_lines parse cur (pre @ (''data: '' @ p) # post)) = fst (for_lines parse cur (pre @ post))"
    and "snd (snd (for_lines parse cur (pre @ (''data: '' @ p) # post))) = snd (snd (for_lines parse cur (pre @ post)))"
    and "''data: [DONE]'' \<notin> set pre \<Longrightarrow> p \<in> set (fst (snd (for_lines parse cur (pre @ (''data: '' @ p) # post))))"
proof -
  show "fst (for_lines parse cur (pre @ (''data: '' @ p) # post)) = fst (for_lines parse cur (pre @ post))"
    unfolding for_lines_append[of parse cur pre] for_lines_bad_data[where parse=parse and p=p, OF assms]
    by (simp split: prod.splits option.splits)
  show "snd (snd (for_lines parse cur (pre @ (''data: '' @ p) # post))) = snd (snd (for_lines parse cur (pre @ post)))"
    unfolding for_lines_append[of parse cur pre] for_lines_bad_data[where parse=parse and p=p, OF assms]
    by (simp split: prod.splits option.splits)
  assume "''data: [DONE]'' \<notin> set pre"
  from for_lines_running[OF this, of parse cur] obtain c where
    "snd (snd (for_lines parse cur pre)) = Some c" by blast
  then show "p \<in> set (fst (snd (for_lines parse cur (pre @ (''data: '' @ p) # post))))"
    unfolding for_lines_append[of parse cur pre] for_lines_bad_data[where parse=parse and p=p, OF assms]
    by (auto split: prod.splits option.splits)
qed

lemma split_newline_nonempty [simp]: "split_newline s \<noteq> []"
  by (induction s) (auto split: list.splits)

lemma split_newline_append_nl:
  "split_newline (a @ CHR 0x0A # b) = split_newline a @ split_newline b"
  by (induction a) (auto split: list.splits)

lemma split_newline_no_nl:
  "CHR 0x0A \<notin> set l \<Longrightarrow> split_newline l = [l]"
  by (induction l) (auto split: list.splits)

lemma split_newline_insert_line:
  assumes "CHR 0x0A \<notin> set l" "a = [] \<or> last a = CHR 0x0A"
  shows "\<exists>pre. butlast (split_newline (a @ l @ CHR 0x0A # b)) = pre @ l # butlast (split_newline b)
            \<and> butlast (split_newline (a @ b)) = pre @ butlast (split_newline b)
            \<and> last (split_newline (a @ l @ CHR 0x0A # b)) = last (split_newline (a @ b))
            \<and> set pre \<subseteq> set (split_newline a)"
proof (cases "a = []")
  case True
  have "split_newline (l @ CHR 0x0A # b) = l # split_newline b"
    by (simp add: split_newline_append_nl split_newline_no_nl[OF assms(1)])
  with True show ?thesis
    by (intro exI[of _ "[]"]) simp
next
  case False
  with assms(2) obtain a' where a: "a = a' @ [CHR 0x0A]"
    by (metis append_butlast_last_id)
  have 1: "split_newline (a @ l @ CHR 0x0A # b) = split_newline a' @ l # split_newline b"
    using split_newline_append_nl[of a' "l @ CHR 0x0A # b"]
    by (simp add: a split_newline_append_nl split_newline_no_nl[OF assms(1)])
  have 2: "split_newline (a @ b) = split_newline a' @ split_newline b"
    using split_newline_append_nl[of a' b] by (simp add: a)
  have 3: "split_newline a = split_newline a' @ ['''']"
    using split_newline_append_nl[of a' "[]"] by (simp add: a)
  show ?thesis
    unfolding 1 2 3
    by (intro exI[of _ "split_newline a'"]) (auto simp add: butlast_append)
qed


lemma parsed_data_all_ok:
  assumes "\<forall>l\<in>set ls. startsWith l ''data: '' \<longrightarrow> parse (drop 6 l) \<noteq> None"
  shows "parsed_data parse ls = map (\<lambda>l. the (parse (drop 6 l))) (filter (\<lambda>l. startsWith l ''data: '') ls)"
  using assms by (induction ls) (auto simp: parsed_data_Cons split: option.splits)

lemma for_lines_open_record:
  assumes ls: "\<forall>l\<in>set ls. l \<noteq> [] \<and> l \<noteq> ''data: [DONE]''"
  shows "fst (for_lines parse cur ls) = []"
  using for_lines_record[OF ls, of parse cur] by auto

lemma for_lines_after_boundary:
  assumes boundary: "pre = [] \<or> last pre = []"
      and running: "''data: [DONE]'' \<notin> set pre"
  shows "\<exists>ys ws c. for_lines parse empty_event pre = (ys, ws, Some c) \<and> \<not> has_data c"
proof -
  obtain ys ws fin where r: "for_lines parse empty_event pre = (ys, ws, fin)"
    by (cases "for_lines parse empty_event pre") auto
  from for_lines_running_aux[OF running r] obtain c where fin: "fin = Some c" by auto
  have "\<not> has_data c"
  proof (cases "pre = []")
    case True
    with r fin show ?thesis by (auto simp: has_data_def empty_event_def)
  next
    case False
    with boundary have "pre = butlast pre @ ['''']"
      by (metis append_butlast_last_id)
    with r fin have "for_lines parse empty_event (butlast pre @ ['''']) = (ys, ws, Some c)"
      by simp
    then show ?thesis by (rule for_lines_blank_no_data)
  qed
  with r fin show ?thesis by blast
qed

lemma record_in_chunk:
  assumes boundary: "pre = [] \<or> last pre = []"
      and running: "''data: [DONE]'' \<notin> set pre"
      and ls: "\<forall>l\<in>set ls. l \<noteq> [] \<and> l \<noteq> ''data: [DONE]''"
  shows "fst (for_lines parse empty_event (pre @ ls)) = fst (for_lines parse empty_event pre)"
    and "fst (for_lines parse empty_event (pre @ ls @ [''''])) =
           fst (for_lines parse empty_event pre) @
           (if parsed_data parse ls \<noteq> [] \<and> truthy (last (parsed_data parse ls))
            then [last (parsed_data parse ls)] else [])"
proof -
  from for_lines_after_boundary[OF boundary running, of parse] obtain ys ws c where
    r: "for_lines parse empty_event pre = (ys, ws, Some c)" and c: "\<not> has_data c" by blast
  have 1: "fst (for_lines parse c ls) = []"
    using ls by (rule for_lines_open_record)
  show "fst (for_lines parse empty_event (pre @ ls)) = fst (for_lines parse empty_event pre)"
    using 1 by (auto simp add: for_lines_append[of parse empty_event pre] r split: prod.splits)
  have 2: "fst (for_lines parse c (ls @ [''''])) =
           (if parsed_data parse ls \<noteq> [] \<and> truthy (last (parsed_data parse ls))
            then [last (parsed_data parse ls)] else [])"
    using ls c by (rule for_lines_close_record)
  show "fst (for_lines parse empty_event (pre @ ls @ [''''])) =
           fst (for_lines parse empty_event pre) @
           (if parsed_data parse ls \<noteq> [] \<and> truthy (last (parsed_data parse ls))
            then [last (parsed_data parse ls)] else [])"
    unfolding for_lines_append[of parse empty_event pre] r
    using 2 by (auto split: prod.splits)
qed

text \<open>
  Claim C1: splitting the text of a stream at arbitrary chunk boundaries and feeding
  the chunks through the decoder yields the same records as feeding the text as one
  chunk. The buffer carries a partial line over a chunk boundary, but
  \<^verbatim>\<open>currentEvent\<close> is declared inside the read loop and starts empty in every
  chunk: a record whose data line ends one chunk and whose closing blank line opens
  the next is lost. The stream is the example of the specification, split after the
  first data line.
\<close>

theorem C1_chunk_split_failing_input:
  "streamAgent parse_sample
     \<lparr>ok = True, body = Some [''data: {\"a\":1}\<newline>\<newline>data: {\"b\":2}\<newline>\<newline>data: [DONE]\<newline>\<newline>'']\<rparr>
     = Inr ([JObject [(''a'', JNumber 1)], JObject [(''b'', JNumber 2)]], [], Sentinel)
   \<and> streamAgent parse_sample
     \<lparr>ok = True, body = Some [''data: {\"a\":1}\<newline>'', ''\<newline>data: {\"b\":2}\<newline>\<newline>data: [DONE]\<newline>\<newline>'']\<rparr>
     = Inr ([JObject [(''b'', JNumber 2)]], [], Sentinel)"
  by (simp add: streamAgent_def parse_sample_def empty_event_def)

text \<open>
  Claim C5: the decoder yields a record exactly when a blank line closes the record
  and at least one data field of the record was parsed successfully. Among the lines
  of one chunk this is what the line loop does for every truthy payload (lemma
  \<open>record_in_chunk\<close>), but the record under construction does not survive the end
  of a chunk: \<^verbatim>\<open>currentEvent\<close> restarts empty with every chunk. The record
  \<^verbatim>\<open>event: message\<close>, \<^verbatim>\<open>data: {"a":1}\<close> is yielded when its lines arrive in one
  chunk, and is lost, although a blank line closes it and its data field parsed, when
  the blank line arrives in the next chunk.
\<close>

theorem C5_closed_record_failing_input:
  "streamAgent parse_sample
     \<lparr>ok = True, body = Some [''event: message\<newline>data: {\"a\":1}\<newline>\<newline>'']\<rparr>
     = Inr ([JObject [(''a'', JNumber 1)]], [], TransportEnd)
   \<and> streamAgent parse_sample
     \<lparr>ok = True, body = Some [''event: message\<newline>data: {\"a\":1}\<newline>'', ''\<newline>'']\<rparr>
     = Inr ([], [], TransportEnd)"
  by (simp add: streamAgent_def parse_sample_def empty_event_def)

text \<open>
  Claim C6: when the decoder meets a data line whose payload is the literal
  \<^verbatim>\<open>[DONE]\<close>, decoding stops at once and ends normally: what has been yielded
  are the records of the lines before it, and neither the lines after it, nor the
  partial line in the buffer, nor a record still open, nor any later chunk adds
  anything.
\<close>

theorem C6_done_stops:
  assumes "butlast (split_newline (buffer @ chunk)) = pre @ ''data: [DONE]'' # post"
  shows "read_loop parse buffer (chunk # rest) =
           (fst (for_lines parse empty_event pre),
            fst (snd (for_lines parse empty_event pre)), Sentinel)"
  by (simp add: Let_def assms for_lines_done split: prod.splits)

theorem C6_done_stops_witness:
  "butlast (split_newline ([] @ ''data: 1\<newline>\<newline>data: {\"a\":1}\<newline>data: [DONE]\<newline>\<newline>data: 1\<newline>\<newline>da''))
     = [''data: 1'', ''''] @ [''data: {\"a\":1}''] @ ''data: [DONE]'' # ['''', ''data: 1'', '''']
   \<and> read_loop parse_sample []
        [''data: 1\<newline>\<newline>data: {\"a\":1}\<newline>data: [DONE]\<newline>\<newline>data: 1\<newline>\<newline>da'', ''ta: 1\<newline>\<newline>'']
     = ([JNumber 1], [], Sentinel)"
proof -
  have h: "butlast (split_newline ([] @ ''data: 1\<newline>\<newline>data: {\"a\":1}\<newline>data: [DONE]\<newline>\<newline>data: 1\<newline>\<newline>da''))
     = ([''data: 1'', ''''] @ [''data: {\"a\":1}'']) @ ''data: [DONE]'' # ['''', ''data: 1'', '''']"
    by simp
  show ?thesis
    using h C6_done_stops[OF h, of parse_sample "[''ta: 1\<newline>\<newline>'']"]
    by (simp add: parse_sample_def empty_event_def)
qed

text \<open>
  A data line whose payload fails to parse is dropped with a warning. Stated on the
  text of a chunk: inserting such a line at the start of a line changes neither the
  values yielded, from this chunk and from all later ones, nor the way the stream
  ends; and unless the sentinel came before it, its payload is among the warnings.
\<close>

lemma malformed_data_skipped:
  assumes bad: "parse p = None" "p \<noteq> ''[DONE]''"
      and line: "CHR 0x0A \<notin> set p"
      and start: "buffer @ ca = [] \<or> last (buffer @ ca) = CHR 0x0A"
  shows "fst (read_loop parse buffer ((ca @ ''data: '' @ p @ CHR 0x0A # cb) # rest))
           = fst (read_loop parse buffer ((ca @ cb) # rest))
       \<and> snd (snd (read_loop parse buffer ((ca @ ''data: '' @ p @ CHR 0x0A # cb) # rest)))
           = snd (snd (read_loop parse buffer ((ca @ cb) # rest)))
       \<and> (''data: [DONE]'' \<notin> set (split_newline (buffer @ ca)) \<longrightarrow>
            p \<in> set (fst (snd (read_loop parse buffer
                                 ((ca @ ''data: '' @ p @ CHR 0x0A # cb) # rest)))))"
proof -
  let ?l = "''data: '' @ p"
  let ?post = "butlast (split_newline cb)"
  have nl: "CHR 0x0A \<notin> set ?l" using line by simp
  from split_newline_insert_line[where l="?l" and a="buffer @ ca" and b=cb, OF nl start] obtain pre where
    w: "butlast (split_newline (buffer @ ca @ ?l @ CHR 0x0A # cb)) = pre @ ?l # ?post"
    and wo: "butlast (split_newline (buffer @ ca @ cb)) = pre @ ?post"
    and la: "last (split_newline (buffer @ ca @ ?l @ CHR 0x0A # cb))
               = last (split_newline (buffer @ ca @ cb))"
    and sub: "set pre \<subseteq> set (split_newline (buffer @ ca))"
    by auto
  obtain y1 w1 f1 where r1: "for_lines parse empty_event (pre @ ?l # ?post) = (y1, w1, f1)"
    by (cases "for_lines parse empty_event (pre @ ?l # ?post)") auto
  obtain y2 w2 f2 where r2: "for_lines parse empty_event (pre @ ?post) = (y2, w2, f2)"
    by (cases "for_lines parse empty_event (pre @ ?post)") auto
  from for_lines_skip_bad(1)[where parse=parse and p=p and cur=empty_event and pre=pre and post="?post", OF bad] r1 r2 have y: "y1 = y2"
    by simp
  from for_lines_skip_bad(2)[where parse=parse and p=p and cur=empty_event and pre=pre and post="?post", OF bad] r1 r2 have f: "f1 = f2"
    by simp
  have wn: "p \<in> set w1" if "''data: [DONE]'' \<notin> set (split_newline (buffer @ ca))"
  proof -
    from that sub have "''data: [DONE]'' \<notin> set pre" by blast
    from for_lines_skip_bad(3)[where parse=parse and p=p and cur=empty_event and pre=pre and post="?post", OF bad this] r1 show ?thesis by simp
  qed
  have inserted: "read_loop parse buffer ((ca @ ?l @ CHR 0x0A # cb) # rest) =
      (case f1 of None \<Rightarrow> (y1, w1, Sentinel)
       | Some cur \<Rightarrow>
          (case read_loop parse (last (split_newline (buffer @ ca @ cb))) rest of
            (ys', ws', e) \<Rightarrow> (y1 @ ys', w1 @ ws', e)))"
    using w la r1 by (simp add: Let_def)
  have plain: "read_loop parse buffer ((ca @ cb) # rest) =
      (case f2 of None \<Rightarrow> (y2, w2, Sentinel)
       | Some cur \<Rightarrow>
          (case read_loop parse (last (split_newline (buffer @ ca @ cb))) rest of
            (ys', ws', e) \<Rightarrow> (y2 @ ys', w2 @ ws', e)))"
    using wo r2 by (simp add: Let_def)
  have assoc: "ca @ ''data: '' @ p @ CHR 0x0A # cb = ca @ ?l @ CHR 0x0A # cb"
    by simp
  show ?thesis
    unfolding assoc inserted plain
    using y f wn by (auto split: option.splits prod.splits)
qed

text \<open>
  Claim C7: a data line whose payload fails to parse is dropped with a warning and
  never ends decoding; the decoder goes on consuming input, and every later
  well-formed record of the stream is still yielded. The line is dropped with a
  warning and decoding goes on, in the same chunk and in the next one (first and
  second evaluation below). But a later well-formed record is yielded only if its
  lines arrive in one chunk: when the blank line that closes it arrives in the next
  chunk, the record is lost (third evaluation), because \<^verbatim>\<open>currentEvent\<close>
  restarts empty with every chunk.
\<close>

theorem C7_record_after_malformed_failing_input:
  "read_loop parse_sample []
     [''data: {not valid}\<newline>\<newline>data: {\"b\":2}\<newline>\<newline>'']
     = ([JObject [(''b'', JNumber 2)]], [''{not valid}''], TransportEnd)
   \<and> read_loop parse_sample []
     [''data: {not valid}\<newline>\<newline>'', ''data: {\"b\":2}\<newline>\<newline>'']
     = ([JObject [(''b'', JNumber 2)]], [''{not valid}''], TransportEnd)
   \<and> read_loop parse_sample []
     [''data: {not valid}\<newline>\<newline>data: {\"b\":2}\<newline>'', ''\<newline>'']
     = ([], [''{not valid}''], TransportEnd)"
  by (simp add: parse_sample_def empty_event_def)

text \<open>
  Among the lines of one chunk, a record with two or more data lines that all parse,
  the last of them to a truthy value, yields exactly that last value when the blank
  line closes it.
\<close>

lemma last_data_wins_in_chunk:
  assumes "pre = [] \<or> last pre = []"
      and "''data: [DONE]'' \<notin> set pre"
      and "\<forall>l\<in>set ls. l \<noteq> [] \<and> l \<noteq> ''data: [DONE]''"
      and "\<forall>l\<in>set ls. startsWith l ''data: '' \<longrightarrow> parse (drop 6 l) \<noteq> None"
      and "2 \<le> length (filter (\<lambda>l. startsWith l ''data: '') ls)"
      and "truthy (the (parse (drop 6 (last (filter (\<lambda>l. startsWith l ''data: '') ls)))))"
  shows "fst (for_lines parse empty_event (pre @ ls @ [''''])) =
           fst (for_lines parse empty_event pre) @
           [the (parse (drop 6 (last (filter (\<lambda>l. startsWith l ''data: '') ls))))]"
proof -
  let ?ds = "filter (\<lambda>l. startsWith l ''data: '') ls"
  from assms(5) have ne: "?ds \<noteq> []" by auto
  have pd: "parsed_data parse ls = map (\<lambda>l. the (parse (drop 6 l))) ?ds"
    using assms(4) by (rule parsed_data_all_ok)
  with ne have 1: "parsed_data parse ls \<noteq> []" by simp
  from pd ne have 2: "last (parsed_data parse ls) = the (parse (drop 6 (last ?ds)))"
    by (simp add: last_map)
  from record_in_chunk(2)[OF assms(1,2,3), of parse] 1 2 assms(6) show ?thesis
    by simp
qed

text \<open>
  Claim C10: a record with several data lines that all parse yields exactly one
  event, whose payload is the value of the last data line. Among the lines of one
  chunk the line loop does so (lemma \<open>last_data_wins_in_chunk\<close>): the record
  \<^verbatim>\<open>data: {"a":1}\<close>, \<^verbatim>\<open>data: {"b":2}\<close> yields \<^verbatim>\<open>{"b":2}\<close> once. When
  the blank line that closes the record arrives in the next chunk, the record yields
  no event at all, because \<^verbatim>\<open>currentEvent\<close> restarts empty with every chunk.
\<close>

theorem C10_last_data_failing_input:
  "streamAgent parse_sample
     \<lparr>ok = True, body = Some [''data: {\"a\":1}\<newline>data: {\"b\":2}\<newline>\<newline>'']\<rparr>
     = Inr ([JObject [(''b'', JNumber 2)]], [], TransportEnd)
   \<and> streamAgent parse_sample
     \<lparr>ok = True, body = Some [''data: {\"a\":1}\<newline>data: {\"b\":2}\<newline>'', ''\<newline>'']\<rparr>
     = Inr ([], [], TransportEnd)"
  by (simp add: streamAgent_def parse_sample_def empty_event_def)

section \<open>Properties of the page operations and the memory loaders\<close>

lemma div_mult_le_self:
  assumes "0 < (l::int)"
  shows "(n div l) * l \<le> n"
proof -
  have "n = (n div l) * l + n mod l" by simp
  moreover have "0 \<le> n mod l" using assms by simp
  ultimately show ?thesis by linarith
qed

lemma next_guard_fails_on_last_page:
  assumes "0 < lmt" and "0 \<le> ofs" and "ofs < 2 ^ 53" and "tot < 2 ^ 53"
      and "currentPage ofs lmt = totalPages tot lmt"
  shows "\<not> ofs + lmt < tot"
proof
  assume a: "ofs + lmt < tot"
  with assms(1,2) have t: "0 \<le> tot" by simp
  have "(ofs div lmt + 1) * lmt = (ofs div lmt) * lmt + lmt"
    by (simp add: algebra_simps)
  also have "\<dots> \<le> ofs + lmt"
    using div_mult_le_self[OF assms(1), of ofs] by simp
  finally have "(ofs div lmt + 1) * lmt < tot" using a by simp
  then have "ofs div lmt + 1 < totalPages tot lmt"
    using lt_totalPages_iff[OF t assms(4,1)] by simp
  with assms(5) show False by (simp add: currentPage_div[OF assms(2,3,1)])
qed

lemma first_page_aligned:
  assumes "0 < lmt" and "0 \<le> ofs" and "ofs < 2 ^ 53"
      and "currentPage ofs lmt = 1" and "lmt dvd ofs"
  shows "ofs = 0"
proof -
  from assms(4) have "ofs div lmt = 0" by (simp add: currentPage_div[OF assms(2,3,1)])
  moreover from assms(5) have "ofs = (ofs div lmt) * lmt" by simp
  ultimately show ?thesis by simp
qed

lemma loadTraces_limit_offset:
  "limit (traces_pagination (loadTraces getTraces st)) = limit (traces_pagination st)
   \<and> offset (traces_pagination (loadTraces getTraces st)) = offset (traces_pagination st)"
  by (simp add: loadTraces_def split: sum.splits prod.splits)

lemma traces_effect_limit_offset:
  "limit (traces_pagination (traces_effect getTraces before st)) = limit (traces_pagination st)
   \<and> offset (traces_pagination (traces_effect getTraces before st))
       = offset (traces_pagination st)"
  by (simp add: traces_effect_def loadTraces_limit_offset)

lemma traces_effect_unchanged: "traces_effect getTraces st st = st"
  by (simp add: traces_effect_def)

lemma traces_pagination_invariant:
  assumes "traces_pagination_reachable p"
  shows "limit p = 25 \<and> 0 \<le> offset p \<and> 25 dvd offset p"
  using assms
proof (induction rule: traces_pagination_reachable.induct)
  case initial
  show ?case by simp
next
  case (new_total p tot)
  then show ?case by simp
next
  case (next_page p)
  then show ?case by (simp add: traces_handleNextPage_def)
next
  case (prev_page p)
  moreover have "25 dvd max 0 (offset p - 25)"
    using prev_page.IH by (simp add: max_def)
  ultimately show ?case by (simp add: traces_handlePrevPage_def)
qed

lemma traces_nextPage_last_page:
  assumes "traces_pagination_reachable (traces_pagination st)" and "offset (traces_pagination st) < 2 ^ 53"
      and "total' (traces_pagination st) < 2 ^ 53"
      and "currentPage (offset (traces_pagination st)) (limit (traces_pagination st))
             = totalPages (total' (traces_pagination st)) (limit (traces_pagination st))"
  shows "traces_nextPage getTraces st = Returned st"
proof -
  let ?p = "traces_pagination st"
  from traces_pagination_invariant[OF assms(1)]
  have l: "0 < limit ?p" and o: "0 \<le> offset ?p" by simp_all
  from next_guard_fails_on_last_page[OF l o assms(2,3,4)]
  have "traces_handleNextPage ?p = ?p" by (simp add: traces_handleNextPage_def)
  then show ?thesis by (simp add: traces_nextPage_def traces_effect_unchanged)
qed

lemma traces_prevPage_first_page:
  assumes "traces_pagination_reachable (traces_pagination st)" and "offset (traces_pagination st) < 2 ^ 53"
      and "currentPage (offset (traces_pagination st)) (limit (traces_pagination st)) = 1"
  shows "traces_prevPage getTraces st = Returned st"
proof -
  let ?p = "traces_pagination st"
  from traces_pagination_invariant[OF assms(1)]
  have l: "0 < limit ?p" and o: "0 \<le> offset ?p" and d: "limit ?p dvd offset ?p"
    by simp_all
  from first_page_aligned[OF l o assms(2,3) d]
  have "traces_handlePrevPage ?p = ?p" by (simp add: traces_handlePrevPage_def)
  then show ?thesis by (simp add: traces_prevPage_def traces_effect_unchanged)
qed

lemma traces_prevPage_nonneg:
  assumes "traces_pagination_reachable (traces_pagination st)"
  shows "\<exists>st'. traces_prevPage getTraces st = Returned st'
           \<and> 0 \<le> offset (traces_pagination st')"
  using traces_pagination_invariant[OF assms]
  by (simp add: traces_prevPage_def traces_effect_limit_offset traces_handlePrevPage_def)

lemma loadMessages_offset:
  "messagesOffset (loadMessages g c st) = messagesOffset st"
  by (simp add: loadMessages_def split: option.splits sum.splits field.splits)

lemma memory_effect_offset:
  "messagesOffset (memory_effect g c before st) = messagesOffset st"
  by (simp add: memory_effect_def loadMessages_offset)

lemma memory_effect_unchanged: "memory_effect g c st st = st"
  by (simp add: memory_effect_def)

lemma memory_nextPage_last_page:
  assumes "currentPage (messagesOffset st) (messagesLimit st)
             = totalPages (messagesTotal st) (messagesLimit st)"
  shows "memory_nextPage g c st = Returned st"
  using assms
  by (simp add: memory_nextPage_def memory_nextButton_def click_def Let_def
      memory_effect_unchanged)

lemma memory_prevPage_first_page:
  assumes "currentPage (messagesOffset st) (messagesLimit st) = 1"
  shows "memory_prevPage g c st = Returned st"
  using assms
  by (simp add: memory_prevPage_def memory_prevButton_def click_def Let_def
      memory_effect_unchanged)

lemma memory_prevPage_nonneg:
  "\<exists>st'. memory_prevPage g c st = Returned st'
     \<and> (0 \<le> messagesOffset st \<longrightarrow> 0 \<le> messagesOffset st')"
  by (simp add: memory_prevPage_def memory_effect_offset memory_prevButton_def click_def
      Let_def memory_handlePrevPage_def)

lemma first_traces_page_reachable:
  "traces_pagination_reachable (traces_pagination first_traces_page)"
proof -
  have "traces_pagination_reachable (\<lparr>limit = 25, offset = 0, total' = 0\<rparr>\<lparr>total' := 50\<rparr>)"
    by (rule traces_pagination_reachable.new_total)
      (rule traces_pagination_reachable.initial)
  then show ?thesis by (simp add: first_traces_page_def)
qed

lemma last_traces_page_reachable:
  "traces_pagination_reachable (traces_pagination last_traces_page)"
proof -
  have "traces_pagination_reachable
      (traces_handleNextPage (traces_pagination first_traces_page))"
    using first_traces_page_reachable by (rule traces_pagination_reachable.next_page)
  then show ?thesis
    by (simp add: traces_handleNextPage_def first_traces_page_def last_traces_page_def)
qed

text \<open>
  Claim C8: the next-page and the previous-page operation are no-ops at their
  boundaries. In every state \<open>ts\<close> of the traces screen whose pagination the
  screen can reach, with offset and total below \<open>2\<^sup>5\<^sup>3\<close> (the range in
  which Numbers count exactly), and in every state \<open>ms\<close> of the memory screen,
  whatever the backends answer:
  next-page invoked when \<open>current_page = total_pages\<close> returns the state it was
  invoked in (offset, limit, total, displayed items and all), and so does previous-page
  invoked when \<open>current_page = 1\<close>; every invocation of either operation returns a
  state and raises no error; and previous-page never drives the offset below 0. In
  the traces screen the guard is in the handler; in the memory screen it is the
  \<^verbatim>\<open>disabled\<close> condition of the button that calls the handler.
\<close>

theorem C8_page_operations_at_boundaries:
  assumes "traces_pagination_reachable (traces_pagination ts)"
      and "offset (traces_pagination ts) < 2 ^ 53"
      and "total' (traces_pagination ts) < 2 ^ 53"
  shows "(currentPage (offset (traces_pagination ts)) (limit (traces_pagination ts))
            = totalPages (total' (traces_pagination ts)) (limit (traces_pagination ts))
          \<longrightarrow> traces_nextPage getTraces ts = Returned ts)
       \<and> (currentPage (offset (traces_pagination ts)) (limit (traces_pagination ts)) = 1
          \<longrightarrow> traces_prevPage getTraces ts = Returned ts)
       \<and> (currentPage (messagesOffset ms) (messagesLimit ms)
            = totalPages (messagesTotal ms) (messagesLimit ms)
          \<longrightarrow> memory_nextPage getConversationMessages selectedConversationId ms = Returned ms)
       \<and> (currentPage (messagesOffset ms) (messagesLimit ms) = 1
          \<longrightarrow> memory_prevPage getConversationMessages selectedConversationId ms = Returned ms)
       \<and> (\<exists>ts'. traces_nextPage getTraces ts = Returned ts')
       \<and> (\<exists>ms'. memory_nextPage getConversationMessages selectedConversationId ms
                   = Returned ms')
       \<and> (\<exists>ts'. traces_prevPage getTraces ts = Returned ts'
                \<and> 0 \<le> offset (traces_pagination ts'))
       \<and> (\<exists>ms'. memory_prevPage getConversationMessages selectedConversationId ms
                   = Returned ms'
                \<and> (0 \<le> messagesOffset ms \<longrightarrow> 0 \<le> messagesOffset ms'))"
proof -
  have 1: "traces_nextPage getTraces ts = Returned ts"
    if "currentPage (offset (traces_pagination ts)) (limit (traces_pagination ts))
          = totalPages (total' (traces_pagination ts)) (limit (traces_pagination ts))"
    using assms that by (rule traces_nextPage_last_page)
  have 2: "traces_prevPage getTraces ts = Returned ts"
    if "currentPage (offset (traces_pagination ts)) (limit (traces_pagination ts)) = 1"
    using assms(1,2) that by (rule traces_prevPage_first_page)
  have 3: "memory_nextPage getConversationMessages selectedConversationId ms = Returned ms"
    if "currentPage (messagesOffset ms) (messagesLimit ms)
          = totalPages (messagesTotal ms) (messagesLimit ms)"
    using that by (rule memory_nextPage_last_page)
  have 4: "memory_prevPage getConversationMessages selectedConversationId ms = Returned ms"
    if "currentPage (messagesOffset ms) (messagesLimit ms) = 1"
    using that by (rule memory_prevPage_first_page)
  have 5: "\<exists>ts'. traces_nextPage getTraces ts = Returned ts'"
    by (simp add: traces_nextPage_def)
  have 6: "\<exists>ms'. memory_nextPage getConversationMessages selectedConversationId ms
                   = Returned ms'"
    by (simp add: memory_nextPage_def)
  note 7 = traces_prevPage_nonneg[OF assms(1), of getTraces]
  note 8 = memory_prevPage_nonneg[of getConversationMessages selectedConversationId ms]
  from 1 2 3 4 5 6 7 8 show ?thesis by blast
qed

theorem C8_page_operations_at_boundaries_witness:
  "traces_nextPage two_page_traces last_traces_page = Returned last_traces_page
   \<and> traces_prevPage two_page_traces first_traces_page = Returned first_traces_page
   \<and> memory_nextPage conversation_backend (Some ''conv_1'') last_page_screen
       = Returned last_page_screen
   \<and> memory_prevPage conversation_backend (Some ''conv_1'')
         (last_page_screen\<lparr>messagesOffset := 0\<rparr>)
       = Returned (last_page_screen\<lparr>messagesOffset := 0\<rparr>)"
proof -
  let ?top = "last_page_screen\<lparr>messagesOffset := 0\<rparr>"
  have a: "offset (traces_pagination last_traces_page) < 2 ^ 53"
    "total' (traces_pagination last_traces_page) < 2 ^ 53"
    "offset (traces_pagination first_traces_page) < 2 ^ 53"
    "total' (traces_pagination first_traces_page) < 2 ^ 53"
    by (simp_all add: first_traces_page_def last_traces_page_def)
  have b: "currentPage (offset (traces_pagination last_traces_page))
               (limit (traces_pagination last_traces_page))
             = totalPages (total' (traces_pagination last_traces_page))
                 (limit (traces_pagination last_traces_page))"
    "currentPage (offset (traces_pagination first_traces_page))
               (limit (traces_pagination first_traces_page)) = 1"
    by (simp_all add: first_traces_page_def last_traces_page_def currentPage_div totalPages_div)
  have c: "currentPage (messagesOffset last_page_screen) (messagesLimit last_page_screen)
             = totalPages (messagesTotal last_page_screen) (messagesLimit last_page_screen)"
    "currentPage (messagesOffset ?top) (messagesLimit ?top) = 1"
    by (simp_all add: last_page_screen_def currentPage_div totalPages_div)
  from C8_page_operations_at_boundaries[where ts=last_traces_page and ms=last_page_screen
      and getTraces=two_page_traces and getConversationMessages=conversation_backend
      and selectedConversationId="Some ''conv_1''",
      OF last_traces_page_reachable a(1,2)] b(1) c(1)
  have "traces_nextPage two_page_traces last_traces_page = Returned last_traces_page"
    "memory_nextPage conversation_backend (Some ''conv_1'') last_page_screen
       = Returned last_page_screen"
    by blast+
  moreover from C8_page_operations_at_boundaries[where ts=first_traces_page and ms="?top"
      and getTraces=two_page_traces and getConversationMessages=conversation_backend
      and selectedConversationId="Some ''conv_1''",
      OF first_traces_page_reachable a(3,4)] b(2) c(2)
  have "traces_prevPage two_page_traces first_traces_page = Returned first_traces_page"
    "memory_prevPage conversation_backend (Some ''conv_1'') ?top = Returned ?top"
    by blast+
  ultimately show ?thesis by simp
qed

lemma loadMemory_entries:
  assumes "getMemory (limit (pagination st)) (offset (pagination st)) = Inr r"
  shows "entries (loadMemory getMemory st) =
           (case (response_mode r = Value ''messages'', response_messages r) of
              (True, Value ms) \<Rightarrow> ms
            | _ \<Rightarrow> (case response_entries r of
                      Absent \<Rightarrow> entries st | Null \<Rightarrow> [] | Value es \<Rightarrow> es))"
  using assms
  by (simp add: loadMemory_def Let_def split: field.splits bool.splits)

lemma loadConversations_conversations:
  assumes "getMemory 100 0 = Inr r"
  shows "conversations (loadConversations getMemory st) =
           (case response_conversations r of
              Value cs \<Rightarrow> if response_mode r = Value ''conversations'' then cs else []
            | _ \<Rightarrow> [])"
  using assms
  by (simp add: loadConversations_def split: field.splits)

text \<open>
  Claim C4, as stated: an answer with none of \<^verbatim>\<open>messages\<close>,
  \<^verbatim>\<open>conversations\<close> and \<^verbatim>\<open>entries\<close> gives the empty list.
  \<^verbatim>\<open>loadMemory\<close> has no branch for such an answer and keeps the entries it had.
\<close>

theorem C4_no_field_counterexample:
  "bare_backend (limit (pagination loaded_browser)) (offset (pagination loaded_browser))
     = Inr \<lparr>response_mode = Absent, response_conversations = Absent,
            response_messages = Absent, response_entries = Absent, response_total = 0\<rparr>
   \<and> entries (loadMemory bare_backend loaded_browser) = [0, 1]
   \<and> entries (loadMemory bare_backend loaded_browser) \<noteq> []"
  by (simp add: loadMemory_def bare_backend_def loaded_browser_def)

text \<open>
  Claim C4, amended: let \<open>r\<close> be the answer to the request of
  \<^verbatim>\<open>loadMemory\<close> and \<open>r'\<close> the answer to the request of
  \<^verbatim>\<open>loadConversations\<close>. If \<open>r\<close> has mode \<^verbatim>\<open>messages\<close> and a
  \<^verbatim>\<open>messages\<close> array, the entries become that array verbatim; if \<open>r'\<close> has mode
  \<^verbatim>\<open>conversations\<close> and a \<^verbatim>\<open>conversations\<close> array, the conversations
  become that array verbatim; if \<open>r\<close> is not such a messages answer but has a legacy
  \<^verbatim>\<open>entries\<close> array, the entries become that array (the empty list when the
  field is \<^verbatim>\<open>null\<close>); if \<open>r'\<close> is not such a conversations answer, the
  conversations become the empty list; and if \<open>r\<close> has none of these fields, the
  entries stay as they were, which is the empty list before the first answer.
\<close>

theorem C4_memory_accessors:
  assumes "getMemory (limit (pagination b)) (offset (pagination b)) = Inr r"
      and "getMemory' 100 0 = Inr r'"
  shows "(response_mode r = Value ''messages'' \<and> response_messages r = Value ms
            \<longrightarrow> entries (loadMemory getMemory b) = ms)
       \<and> (response_mode r' = Value ''conversations'' \<and> response_conversations r' = Value cs
            \<longrightarrow> conversations (loadConversations getMemory' s) = cs)
       \<and> (\<not> (response_mode r = Value ''messages'' \<and> (\<exists>xs. response_messages r = Value xs))
            \<longrightarrow> (response_entries r = Value es \<longrightarrow> entries (loadMemory getMemory b) = es)
              \<and> (response_entries r = Null \<longrightarrow> entries (loadMemory getMemory b) = [])
              \<and> (response_entries r = Absent
                    \<longrightarrow> entries (loadMemory getMemory b) = entries b))
       \<and> (\<not> (response_mode r' = Value ''conversations''
               \<and> (\<exists>xs. response_conversations r' = Value xs))
            \<longrightarrow> conversations (loadConversations getMemory' s) = [])"
  unfolding loadMemory_entries[where getMemory=getMemory and st=b and r=r, OF assms(1)]
    loadConversations_conversations[where getMemory=getMemory' and st=s and r=r', OF assms(2)]
  by (auto split: field.splits bool.splits)

theorem C4_memory_accessors_witness:
  "entries (loadMemory messages_backend loaded_browser) = [1, 2]
   \<and> conversations (loadConversations conversations_backend last_page_screen)
       = [''conv_1'', ''conv_2'']
   \<and> entries (loadMemory legacy_backend loaded_browser) = [7, 8]
   \<and> entries (loadMemory conversations_backend loaded_browser) = entries loaded_browser
   \<and> conversations (loadConversations messages_backend last_page_screen) = []"
proof -
  let ?l = "limit (pagination loaded_browser)" and ?o = "offset (pagination loaded_browser)"
  obtain r1 where r1: "messages_backend ?l ?o = Inr r1"
    "response_mode r1 = Value ''messages''" "response_messages r1 = Value [1, 2]"
    by (simp add: messages_backend_def)
  obtain r2 where r2: "conversations_backend 100 0 = Inr r2"
    "response_mode r2 = Value ''conversations''"
    "response_conversations r2 = Value [''conv_1'', ''conv_2'']"
    by (simp add: conversations_backend_def)
  obtain r3 where r3: "legacy_backend ?l ?o = Inr r3"
    "\<not> (response_mode r3 = Value ''messages'' \<and> (\<exists>xs. response_messages r3 = Value xs))"
    "response_entries r3 = Value [7, 8]"
    by (simp add: legacy_backend_def)
  obtain r4 where r4: "conversations_backend ?l ?o = Inr r4"
    "\<not> (response_mode r4 = Value ''messages'' \<and> (\<exists>xs. response_messages r4 = Value xs))"
    "response_entries r4 = Absent"
    by (simp add: conversations_backend_def)
  obtain r5 where r5: "messages_backend 100 0 = Inr r5"
    "\<not> (response_mode r5 = Value ''conversations''
         \<and> (\<exists>xs. response_conversations r5 = Value xs))"
    by (simp add: messages_backend_def)
  from C4_memory_accessors[where getMemory=messages_backend and b=loaded_browser and r=r1
      and getMemory'=conversations_backend and r'=r2 and s=last_page_screen
      and ms="[1, 2]" and cs="[''conv_1'', ''conv_2'']", OF r1(1) r2(1)]
    r1(2,3) r2(2,3)
  have "entries (loadMemory messages_backend loaded_browser) = [1, 2]"
    "conversations (loadConversations conversations_backend last_page_screen)
       = [''conv_1'', ''conv_2'']"
    by blast+
  moreover from C4_memory_accessors[where getMemory=legacy_backend and b=loaded_browser and r=r3
      and getMemory'=messages_backend and r'=r5 and s=last_page_screen
      and es="[7, 8]", OF r3(1) r5(1)] r3(2,3) r5(2)
  have "entries (loadMemory legacy_backend loaded_browser) = [7, 8]"
    "conversations (loadConversations messages_backend last_page_screen) = []"
    by blast+
  moreover from C4_memory_accessors[where getMemory=conversations_backend and b=loaded_browser
      and r=r4 and getMemory'=messages_backend and r'=r5 and s=last_page_screen,
      OF r4(1) r5(1)] r4(2,3)
  have "entries (loadMemory conversations_backend loaded_browser) = entries loaded_browser"
    by blast
  ultimately show ?thesis by simp
qed

lemma loadMore_appends:
  assumes "getMemory (limit (pagination st)) (offset (pagination st) + limit (pagination st))
             = Inr response"
  shows "entries (loadMore getMemory st) = entries st @ newEntries response
       \<and> offset (pagination (loadMore getMemory st))
           = offset (pagination st) + limit (pagination st)
       \<and> limit (pagination (loadMore getMemory st)) = limit (pagination st)
       \<and> total' (pagination (loadMore getMemory st)) = total' (pagination st)"
  using assms by (simp add: loadMore_def Let_def)

lemma upt_50_100: "[0 ..< 50] @ [50 ..< 100] = [0 ..< (100::nat)]"
  using upt_add_eq_append[of 0 50 50] by simp

text \<open>
  Claim C9, evaluated: the browser is open and shows the first page, messages 0 to 49
  of 120 (limit 50, offset 0). \<^verbatim>\<open>loadMore\<close> itself requests the page at
  offset 50, appends it and sets the offset to 50, as the claim says. The new offset
  gives \<^verbatim>\<open>loadMemory\<close> a new identity, so the effect
  \<^verbatim>\<open>[open, loadMemory]\<close> runs it, and \<^verbatim>\<open>setEntries(response.messages)\<close>
  replaces the list: the operation ends with the messages 50 to 99 only, and the
  messages 0 to 49 that were loaded before are gone.
\<close>

theorem C9_load_more_failing_input:
  "entries first_page_browser = [0 ..< 50]
   \<and> entries (loadMore paged_backend first_page_browser) = [0 ..< 100]
   \<and> offset (pagination (loadMore paged_backend first_page_browser)) = 50
   \<and> entries (loadMore_operation paged_backend True first_page_browser) = [50 ..< 100]
   \<and> length (entries (loadMore_operation paged_backend True first_page_browser)) = 50"
  by (simp add: loadMore_operation_def browser_effect_def loadMore_def loadMemory_def
      newEntries_def paged_backend_def first_page_browser_def Let_def upt_50_100[symmetric])

section \<open>Properties of the trace tree builder\<close>

lemma init_notin:
  "k \<notin> span_id ` set spans \<Longrightarrow> foldl set_node m spans k = m k"
  by (induction spans arbitrary: m) (auto simp: set_node_def)

lemma init_in:
  assumes "distinct (map span_id spans)" "s \<in> set spans"
  shows "foldl set_node m spans (span_id s) = Some \<lparr>node_span = s, children = []\<rparr>"
  using assms
proof (induction spans arbitrary: m)
  case Nil
  then show ?case by simp
next
  case (Cons x xs)
  show ?case
  proof (cases "s = x")
    case True
    from Cons.prems(1) have "span_id x \<notin> span_id ` set xs" by simp
    then have "foldl set_node (set_node m x) xs (span_id x) = set_node m x (span_id x)"
      by (rule init_notin)
    moreover have "set_node m x (span_id x) = Some \<lparr>node_span = x, children = []\<rparr>"
      by (simp add: set_node_def)
    ultimately show ?thesis using True by simp
  next
    case False
    with Cons.prems have "distinct (map span_id xs)" "s \<in> set xs" by simp_all
    from Cons.IH[OF this] show ?thesis by simp
  qed
qed

lemma add_children_Nil [simp]: "add_children [] nd = nd"
  by (simp add: add_children_def)

lemma map_option_add_children_Nil [simp]: "map_option (add_children []) x = x"
  by (cases x) simp_all

lemma link_step:
  "link (m, r) s =
     ((\<lambda>k. map_option (add_children (if has_parent m s \<and> parent_id s = Some k then [span_id s] else [])) (m k)),
      r @ (if has_parent m s then [] else [span_id s]))"
  by (auto simp: link_def has_parent_def add_children_def fun_eq_iff split: option.splits)

lemma has_parent_map_option [simp]:
  "has_parent (\<lambda>k. map_option (f k) (m k)) s = has_parent m s"
  by (simp add: has_parent_def split: option.splits)

lemma add_children_add_children [simp]:
  "add_children ks (add_children js nd) = add_children (js @ ks) nd"
  by (simp add: add_children_def)

lemma link_fold:
  "foldl link (m, r) xs =
     ((\<lambda>k. map_option (add_children (map span_id (filter (\<lambda>s. has_parent m s \<and> parent_id s = Some k) xs))) (m k)),
      r @ map span_id (filter (\<lambda>s. \<not> has_parent m s) xs))"
proof (induction xs arbitrary: m r)
  case Nil
  show ?case by (simp add: option.map_ident)
next
  case (Cons x xs)
  show ?case
    unfolding foldl_Cons link_step Cons.IH
    by (auto simp: fun_eq_iff option.map_comp comp_def)
qed

lemma generation_append: "generation c n (xs @ ys) = generation c n xs @ generation c n ys"
  by (induction n arbitrary: xs ys) simp_all

lemma generation_Nil [simp]: "generation c n [] = []"
  by (induction n) simp_all

lemma generation_Cons: "generation c n (k # ks) = generation c n [k] @ generation c n ks"
  using generation_append[of c n "[k]" ks] by simp

lemma generation_Suc_right: "generation c (Suc n) ks = concat (map c (generation c n ks))"
  by (induction n arbitrary: ks) simp_all

lemma nth_ancestor_add: "nth_ancestor P (i + d) k = (case nth_ancestor P i k of None \<Rightarrow> None | Some b \<Rightarrow> nth_ancestor P d b)"
  by (induction i arbitrary: k) (simp_all split: option.splits)

lemma nth_ancestor_Suc_right: "nth_ancestor P (Suc n) k = (case nth_ancestor P n k of None \<Rightarrow> None | Some b \<Rightarrow> P b)"
  using nth_ancestor_add[of P n 1 k] by (simp split: option.splits)

lemma nth_ancestor_None_mono: "nth_ancestor P n k = None \<Longrightarrow> nth_ancestor P (Suc n) k = None"
  by (simp add: nth_ancestor_Suc_right del: nth_ancestor.simps)

lemma at_depth_Suc:
  "at_depth P (Suc n) c \<longleftrightarrow> (\<exists>p. P c = Some p \<and> at_depth P n p)"
  by (auto simp: at_depth_def split: option.splits)

lemma at_depth_0: "at_depth P 0 c \<longleftrightarrow> P c = None"
  by (auto simp: at_depth_def split: option.splits)

lemma distinct_concat_map:
  assumes "distinct xs"
      and "\<And>x. x \<in> set xs \<Longrightarrow> distinct (f x)"
      and "\<And>x y. x \<in> set xs \<Longrightarrow> y \<in> set xs \<Longrightarrow> x \<noteq> y \<Longrightarrow> set (f x) \<inter> set (f y) = {}"
  shows "distinct (concat (map f xs))"
  using assms
proof (induction xs)
  case Nil
  show ?case by simp
next
  case (Cons x xs)
  have "distinct (concat (map f xs))"
    using Cons.prems by (intro Cons.IH) auto
  moreover have "distinct (f x)" using Cons.prems(2) by simp
  moreover have "set (f x) \<inter> set (f y) = {}" if "y \<in> set xs" for y
    using Cons.prems(1) Cons.prems(3)[of x y] that by auto
  ultimately show ?case by auto
qed

lemma generation_at_depth:
  assumes "distinct ids"
      and closed: "\<forall>c\<in>set ids. \<forall>p. P c = Some p \<longrightarrow> p \<in> set ids"
  shows "distinct (generation (children_of P ids) n (filter (\<lambda>c. P c = None) ids))
       \<and> set (generation (children_of P ids) n (filter (\<lambda>c. P c = None) ids)) = {k \<in> set ids. at_depth P n k}"
proof (induction n)
  case 0
  show ?case using assms(1) by (auto simp: at_depth_0)
next
  case (Suc n)
  let ?g = "generation (children_of P ids) n (filter (\<lambda>c. P c = None) ids)"
  from Suc have d: "distinct ?g" and s: "set ?g = {k \<in> set ids. at_depth P n k}" by simp_all
  have "distinct (concat (map (children_of P ids) ?g))"
  proof (rule distinct_concat_map[OF d])
    show "distinct (children_of P ids x)" for x using assms(1) by (simp add: children_of_def)
    show "set (children_of P ids x) \<inter> set (children_of P ids y) = {}" if "x \<noteq> y" for x y
      using that by (auto simp: children_of_def)
  qed
  moreover have "set (concat (map (children_of P ids) ?g)) = {k \<in> set ids. at_depth P (Suc n) k}"
    using closed by (auto simp: s children_of_def at_depth_Suc)
  ultimately show ?case by (simp only: generation_Suc_right) 
qed

lemma nth_ancestor_prefix:
  assumes "nth_ancestor P n k = Some a" "i \<le> n"
  shows "\<exists>b. nth_ancestor P i k = Some b"
proof -
  from assms(2) obtain d where "n = i + d" using le_Suc_ex by blast
  with assms(1) show ?thesis by (auto simp: nth_ancestor_add split: option.splits)
qed

lemma nth_ancestor_closed:
  assumes closed: "\<forall>c\<in>set ids. \<forall>p. P c = Some p \<longrightarrow> p \<in> set ids"
  shows "k \<in> set ids \<Longrightarrow> nth_ancestor P n k = Some a \<Longrightarrow> a \<in> set ids"
proof (induction n arbitrary: k)
  case 0
  then show ?case by simp
next
  case (Suc n)
  then show ?case using closed by (auto split: option.splits)
qed

lemma nth_ancestor_trancl:
  assumes closed: "\<forall>c\<in>set ids. \<forall>p. P c = Some p \<longrightarrow> p \<in> set ids"
  shows "0 < d \<Longrightarrow> b \<in> set ids \<Longrightarrow> nth_ancestor P d b = Some a
           \<Longrightarrow> (b, a) \<in> {(c, p). c \<in> set ids \<and> P c = Some p}\<^sup>+"
proof (induction d arbitrary: b)
  case 0
  then show ?case by simp
next
  case (Suc d)
  from Suc.prems(3) obtain p where p: "P b = Some p" and u: "nth_ancestor P d p = Some a"
    by (auto split: option.splits)
  from p Suc.prems(2) have e: "(b, p) \<in> {(c, p). c \<in> set ids \<and> P c = Some p}" by simp
  show ?case
  proof (cases d)
    case 0
    with u have "a = p" by simp
    with e show ?thesis by blast
  next
    case (Suc d')
    then have "0 < d" by simp
    moreover have "p \<in> set ids" using closed Suc.prems(2) p by blast
    ultimately have "(p, a) \<in> {(c, p). c \<in> set ids \<and> P c = Some p}\<^sup>+"
      using u by (rule Suc.IH)
    with e show ?thesis by (rule trancl_into_trancl2)
  qed
qed

lemma parent_chain_ends:
  assumes closed: "\<forall>c\<in>set ids. \<forall>p. P c = Some p \<longrightarrow> p \<in> set ids"
      and acyclic: "\<forall>k\<in>set ids. (k, k) \<notin> {(c, p). c \<in> set ids \<and> P c = Some p}\<^sup>+"
      and k: "k \<in> set ids"
  shows "nth_ancestor P (length ids) k = None"
proof (rule ccontr)
  assume "nth_ancestor P (length ids) k \<noteq> None"
  then obtain a where a: "nth_ancestor P (length ids) k = Some a" by auto
  define f where "f i = the (nth_ancestor P i k)" for i
  have ex: "nth_ancestor P i k = Some (f i)" if "i \<le> length ids" for i
    using nth_ancestor_prefix[OF a that] by (auto simp: f_def)
  have "f ` {..length ids} \<subseteq> set ids"
    using ex nth_ancestor_closed[OF closed k] by auto
  then have "card (f ` {..length ids}) \<le> card (set ids)"
    by (intro card_mono) simp_all
  also have "\<dots> \<le> length ids" by (rule card_length)
  finally have "\<not> inj_on f {..length ids}"
    by (auto dest: card_image)
  then obtain i j where ij: "i \<le> length ids" "j \<le> length ids" "i < j" "f i = f j"
    unfolding inj_on_def by (metis atMost_iff linorder_neqE_nat)
  have "nth_ancestor P (i + (j - i)) k = nth_ancestor P (j - i) (f i)"
    using ex[OF ij(1)] by (simp add: nth_ancestor_add)
  with ij ex[OF ij(2)] have "nth_ancestor P (j - i) (f i) = Some (f i)" by simp
  moreover have "f i \<in> set ids" using ex[OF ij(1)] nth_ancestor_closed[OF closed k] by blast
  moreover have "0 < j - i" using ij(3) by simp
  ultimately have "(f i, f i) \<in> {(c, p). c \<in> set ids \<and> P c = Some p}\<^sup>+"
    using nth_ancestor_trancl[OF closed] by blast
  with acyclic \<open>f i \<in> set ids\<close> show False by blast
qed

lemma depth_partition:
  "(\<Sum>i<n. image_mset sp (filter_mset (at_depth P i) M))
     = image_mset sp (filter_mset (\<lambda>k. nth_ancestor P n k = None) M)"
proof (induction n)
  case 0
  show ?case by simp
next
  case (Suc n)
  have "filter_mset (\<lambda>k. nth_ancestor P (Suc n) k = None) M
          = filter_mset (\<lambda>k. nth_ancestor P n k = None) M + filter_mset (at_depth P n) M"
    by (rule multiset_eqI) (auto simp: at_depth_def dest: nth_ancestor_None_mono)
  with Suc show ?case by simp
qed

lemma forest_nodes_generations:
  assumes closed: "\<forall>k\<in>set ids. set (c k) \<subseteq> set ids"
  shows "\<forall>k\<in>set ids. \<exists>nd. m k = Some nd \<and> node_span nd = sp k \<and> children nd = c k \<Longrightarrow>
         set ks \<subseteq> set ids \<Longrightarrow> generation c n ks = [] \<Longrightarrow>
           \<exists>xs. forest_nodes n m ks = Some xs
              \<and> mset xs = (\<Sum>i<n. image_mset sp (mset (generation c i ks)))"
proof (induction n m ks rule: forest_nodes.induct)
  case (1 m)
  show ?case by simp
next
  case (2 m k ks)
  then show ?case by simp
next
  case (3 n m)
  show ?case by simp
next
  case (4 n m k ks)
  note store = "4.prems"(1)
  from "4.prems"(2) have k: "k \<in> set ids" and ks: "set ks \<subseteq> set ids" by simp_all
  from store k obtain nd where nd: "m k = Some nd" "node_span nd = sp k" "children nd = c k"
    by auto
  from "4.prems"(3) have g: "generation c (Suc n) [k] = []" "generation c (Suc n) ks = []"
    using generation_Cons[of c "Suc n" k ks] by simp_all
  from g(1) have gk: "generation c n (c k) = []" by simp
  have ck: "set (c k) \<subseteq> set ids" using closed k by blast
  from "4.IH"(1)[OF nd(1) store] ck gk nd(3) obtain below where
    below: "forest_nodes n m (c k) = Some below"
           "mset below = (\<Sum>i<n. image_mset sp (mset (generation c i (c k))))"
    by auto
  from "4.IH"(2)[OF nd(1) _ store ks g(2)] below(1) nd(3) obtain others where
    others: "forest_nodes (Suc n) m ks = Some others"
            "mset others = (\<Sum>i<Suc n. image_mset sp (mset (generation c i ks)))"
    by auto
  have shift: "(\<Sum>i<Suc n. image_mset sp (mset (generation c i [k])))
                 = {#sp k#} + (\<Sum>i<n. image_mset sp (mset (generation c i (c k))))"
    by (simp add: sum.lessThan_Suc_shift del: sum.lessThan_Suc)
  have split: "(\<Sum>i<Suc n. image_mset sp (mset (generation c i (k # ks))))
                 = (\<Sum>i<Suc n. image_mset sp (mset (generation c i [k])))
                   + (\<Sum>i<Suc n. image_mset sp (mset (generation c i ks)))"
    unfolding sum.distrib[symmetric]
    by (rule sum.cong) (simp_all add: generation_Cons[of c _ k ks])
  have "forest_nodes (Suc n) m (k # ks) = Some (sp k # below @ others)"
    using nd below(1) others(1) by simp
  moreover have "mset (sp k # below @ others)
      = (\<Sum>i<Suc n. image_mset sp (mset (generation c i (k # ks))))"
    unfolding split shift using below(2) others(2) by simp
  ultimately show ?case by blast
qed

lemma find_span:
  assumes "distinct (map span_id spans)" "s \<in> set spans"
  shows "find (\<lambda>x. span_id x = span_id s) spans = Some s"
  using assms by (induction spans) (auto simp: image_iff)

lemma parent_of_span:
  assumes "distinct (map span_id spans)" "s \<in> set spans"
  shows "parent_of spans (span_id s) = attached_to spans s"
  by (simp add: parent_of_def find_span[OF assms])

lemma span_of_span:
  assumes "distinct (map span_id spans)" "s \<in> set spans"
  shows "span_of spans (span_id s) = s"
  by (simp add: span_of_def find_span[OF assms])

lemma init_dom: "foldl set_node m spans k \<noteq> None \<longleftrightarrow> m k \<noteq> None \<or> k \<in> span_id ` set spans"
  by (induction spans arbitrary: m) (auto simp: set_node_def)

lemma has_parent_init:
  "has_parent (foldl set_node Map.empty spans) s \<longleftrightarrow> attached_to spans s \<noteq> None"
  using init_dom[of Map.empty spans]
  by (auto simp: has_parent_def attached_to_def split: option.splits)

lemma has_parent_init_Some:
  "has_parent (foldl set_node Map.empty spans) s \<and> parent_id s = Some k
     \<longleftrightarrow> attached_to spans s = Some k"
  using init_dom[of Map.empty spans]
  by (auto simp: has_parent_def attached_to_def split: option.splits)

lemma build_roots:
  "fst (buildSpanHierarchy spans) = map span_id (filter (\<lambda>s. attached_to spans s = None) spans)"
  by (simp add: buildSpanHierarchy_def Let_def link_fold has_parent_init)

lemma build_store:
  assumes "distinct (map span_id spans)" "s \<in> set spans"
  shows "snd (buildSpanHierarchy spans) (span_id s) =
           Some \<lparr>node_span = s,
                 children = map span_id (filter (\<lambda>c. attached_to spans c = Some (span_id s)) spans)\<rparr>"
  by (simp add: buildSpanHierarchy_def Let_def link_fold init_in[OF assms]
        has_parent_init_Some add_children_def)

lemma build_dom:
  "snd (buildSpanHierarchy spans) k \<noteq> None \<longleftrightarrow> k \<in> span_id ` set spans"
  using init_dom[of Map.empty spans k]
  by (simp add: buildSpanHierarchy_def Let_def link_fold)

lemma filter_ids:
  assumes "distinct (map span_id spans)"
  shows "map span_id (filter (\<lambda>s. attached_to spans s = v) spans)
           = filter (\<lambda>k. parent_of spans k = v) (map span_id spans)"
proof -
  have "filter (\<lambda>s. attached_to spans s = v) spans
          = filter (\<lambda>s. parent_of spans (span_id s) = v) spans"
    by (rule filter_cong) (simp_all add: parent_of_span[OF assms])
  then show ?thesis by (simp add: filter_map comp_def)
qed

lemma parent_of_closed:
  "parent_of spans c = Some p \<Longrightarrow> p \<in> set (map span_id spans)"
  by (auto simp: parent_of_def attached_to_def split: option.splits if_splits)

lemma parent_of_edges:
  assumes "distinct (map span_id spans)"
  shows "{(c, p). c \<in> set (map span_id spans) \<and> parent_of spans c = Some p} \<subseteq> parent_edges spans"
proof (clarify)
  fix c p assume c: "c \<in> set (map span_id spans)" and p: "parent_of spans c = Some p"
  from c obtain s where s: "s \<in> set spans" "c = span_id s" by auto
  with p have "attached_to spans s = Some p" by (simp add: parent_of_span[OF assms])
  then have "parent_id s = Some p"
    by (auto simp: attached_to_def split: option.splits if_splits)
  with s show "(c, p) \<in> parent_edges spans" by (auto simp: parent_edges_def)
qed

lemma no_self_ancestor_by_rank:
  fixes r :: "string \<Rightarrow> nat"
  assumes "\<forall>s\<in>set spans. \<forall>p. parent_id s = Some p \<longrightarrow> r p < r (span_id s)"
  shows "no_self_ancestor spans"
proof -
  have "r b < r a" if "(a, b) \<in> (parent_edges spans)\<^sup>+" for a b
    using that
  proof (induction rule: trancl.induct)
    case (r_into_trancl a b)
    then show ?case using assms by (auto simp: parent_edges_def)
  next
    case (trancl_into_trancl a b c)
    moreover from trancl_into_trancl(2) have "r c < r b"
      using assms by (auto simp: parent_edges_def)
    ultimately show ?case by simp
  qed
  then show ?thesis unfolding no_self_ancestor_def by (meson less_irrefl)
qed

lemma forest_of_build:
  assumes d: "distinct (map span_id spans)" and a: "no_self_ancestor spans"
  shows "\<exists>xs. forest_nodes (length spans) (snd (buildSpanHierarchy spans))
                 (fst (buildSpanHierarchy spans)) = Some xs
             \<and> mset xs = mset spans"
proof -
  let ?ids = "map span_id spans" and ?P = "parent_of spans" and ?sp = "span_of spans"
  let ?m = "snd (buildSpanHierarchy spans)"
  let ?c = "children_of ?P ?ids"
  let ?roots = "filter (\<lambda>c. ?P c = None) ?ids"
  have roots: "fst (buildSpanHierarchy spans) = ?roots"
    by (simp only: build_roots filter_ids[OF d])
  have closed: "\<forall>c\<in>set ?ids. \<forall>p. ?P c = Some p \<longrightarrow> p \<in> set ?ids"
    using parent_of_closed by blast
  have acyc: "\<forall>k\<in>set ?ids. (k, k) \<notin> {(c, p). c \<in> set ?ids \<and> ?P c = Some p}\<^sup>+"
  proof
    fix k assume "k \<in> set ?ids"
    then obtain s where "s \<in> set spans" "k = span_id s" by auto
    with a have "(k, k) \<notin> (parent_edges spans)\<^sup>+" by (simp add: no_self_ancestor_def)
    then show "(k, k) \<notin> {(c, p). c \<in> set ?ids \<and> ?P c = Some p}\<^sup>+"
      using trancl_mono[OF _ parent_of_edges[OF d]] by blast
  qed
  have ends: "nth_ancestor ?P (length spans) k = None" if "k \<in> set ?ids" for k
    using parent_chain_ends[OF closed acyc that] by simp
  note lv = generation_at_depth[OF d, of ?P]
  have "set (generation ?c (length spans) ?roots) = {}"
    using lv[OF closed, of "length spans"] ends by (auto simp: at_depth_def)
  then have empty: "generation ?c (length spans) ?roots = []" by simp
  have store: "\<forall>k\<in>set ?ids. \<exists>nd. ?m k = Some nd \<and> node_span nd = ?sp k \<and> children nd = ?c k"
  proof
    fix k assume "k \<in> set ?ids"
    then obtain s where s: "s \<in> set spans" "k = span_id s" by auto
    show "\<exists>nd. ?m k = Some nd \<and> node_span nd = ?sp k \<and> children nd = ?c k"
      unfolding s(2) build_store[OF d s(1)] span_of_span[OF d s(1)] children_of_def
      by (simp add: filter_ids[OF d])
  qed
  have cl: "\<forall>k\<in>set ?ids. set (?c k) \<subseteq> set ?ids"
    by (auto simp: children_of_def)
  from forest_nodes_generations[where sp="?sp", OF cl store _ empty] obtain xs where
    xs: "forest_nodes (length spans) ?m ?roots = Some xs"
        "mset xs = (\<Sum>i<length spans. image_mset ?sp (mset (generation ?c i ?roots)))"
    by auto
  have "mset (generation ?c i ?roots) = filter_mset (at_depth ?P i) (mset ?ids)" for i
  proof -
    have "mset (generation ?c i ?roots) = mset (filter (at_depth ?P i) ?ids)"
      using lv[OF closed, of i] d
      by (intro iffD1[OF set_eq_iff_mset_eq_distinct]) auto
    then show ?thesis by simp
  qed
  with xs(2) have "mset xs = image_mset ?sp (filter_mset (\<lambda>k. nth_ancestor ?P (length spans) k = None) (mset ?ids))"
    by (simp add: depth_partition)
  also have "filter_mset (\<lambda>k. nth_ancestor ?P (length spans) k = None) (mset ?ids) = mset ?ids"
    using ends by (simp add: filter_mset_eq_conv)
  also have "image_mset ?sp (mset ?ids) = mset (map ?sp ?ids)" by (simp only: mset_map)
  also have "map ?sp ?ids = spans"
    by (simp add: map_idI span_of_span[OF d])
  finally show ?thesis using xs(1) roots by auto
qed

lemma build_node:
  assumes d: "distinct (map span_id spans)"
      and nd: "snd (buildSpanHierarchy spans) p = Some nd"
  shows "\<exists>s\<in>set spans. p = span_id s \<and> node_span nd = s
           \<and> children nd = filter (\<lambda>k. parent_of spans k = Some p) (map span_id spans)"
proof -
  from nd have "p \<in> span_id ` set spans" using build_dom[of spans p] by simp
  then obtain s where s: "s \<in> set spans" "p = span_id s" by auto
  from nd build_store[OF d s(1)] s(2) have
    "nd = \<lparr>node_span = s,
           children = map span_id (filter (\<lambda>c. attached_to spans c = Some p) spans)\<rparr>"
    by simp
  with s show ?thesis by (auto simp: filter_ids[OF d])
qed

lemma attached_to_None_iff:
  "attached_to spans s = None \<longleftrightarrow>
     parent_id s = None \<or> parent_id s = Some [] \<or>
     (\<exists>p. parent_id s = Some p \<and> p \<notin> span_id ` set spans)"
  by (auto simp: attached_to_def split: option.splits)

lemma filter_by_membership: "filter Q xs = filter (\<lambda>k. k \<in> set (filter Q xs)) xs"
  by (rule filter_cong) auto

lemma sample_spans_ok:
  "distinct (map span_id sample_spans)" "no_self_ancestor sample_spans"
proof -
  show "distinct (map span_id sample_spans)" by (simp add: sample_spans_def)
  show "no_self_ancestor sample_spans"
    by (rule no_self_ancestor_by_rank[where r=length]) (simp add: sample_spans_def)
qed

text \<open>
  Claim C2, as stated: for a span list with unique ids and no span its own ancestor,
  every root of the forest has no \<^verbatim>\<open>parent_id\<close> or a \<^verbatim>\<open>parent_id\<close> that is
  not an id of the list. The builder tests \<^verbatim>\<open>span.parent_id && ...\<close>, and the
  empty string is falsy: a span whose \<^verbatim>\<open>parent_id\<close> is the empty string becomes
  a root also when a span with the empty id is in the list.
\<close>

theorem C2_empty_parent_id_counterexample:
  "distinct (map span_id empty_id_spans) \<and> no_self_ancestor empty_id_spans
   \<and> fst (buildSpanHierarchy empty_id_spans) = ['''', ''a'']
   \<and> \<not> (\<forall>k\<in>set (fst (buildSpanHierarchy empty_id_spans)).
           \<exists>s\<in>set empty_id_spans. span_id s = k \<and>
             (parent_id s = None \<or>
              (\<exists>p. parent_id s = Some p \<and> p \<notin> span_id ` set empty_id_spans)))"
proof -
  have "no_self_ancestor empty_id_spans"
    by (rule no_self_ancestor_by_rank[where r=length]) (simp add: empty_id_spans_def)
  moreover have r: "fst (buildSpanHierarchy empty_id_spans) = ['''', ''a'']"
    by (simp add: buildSpanHierarchy_def empty_id_spans_def link_def set_node_def)
  moreover have "\<not> (\<forall>k\<in>set (fst (buildSpanHierarchy empty_id_spans)).
           \<exists>s\<in>set empty_id_spans. span_id s = k \<and>
             (parent_id s = None \<or>
              (\<exists>p. parent_id s = Some p \<and> p \<notin> span_id ` set empty_id_spans)))"
    unfolding r by (simp add: empty_id_spans_def)
  ultimately show ?thesis by (simp add: empty_id_spans_def)
qed

text \<open>
  Claim C2, amended: for a span list with unique ids in which no span is transitively
  its own ancestor, the builder returns a forest in which the node of every span
  carries that span and nothing else is a node; a span is a root exactly when it has
  no \<^verbatim>\<open>parent_id\<close>, the empty \<^verbatim>\<open>parent_id\<close>, or a \<^verbatim>\<open>parent_id\<close> that
  is not an id of the list (missing parents are promoted to roots, never dropped);
  a span is in the children of a node exactly when its \<^verbatim>\<open>parent_id\<close> is the
  non-empty id of that node, so that every span that is not a root is in the children
  of exactly one node, once, and no root is in any children list; the nodes of the
  forest, as the renderer walks it, are the spans of the list, each exactly once; and
  the root list and every children list keep the order of the list.
\<close>

theorem C2_span_forest:
  assumes d: "distinct (map span_id spans)" and a: "no_self_ancestor spans"
  shows "case buildSpanHierarchy spans of (rootSpans, m) \<Rightarrow>
       (\<forall>s\<in>set spans. \<exists>nd. m (span_id s) = Some nd \<and> node_span nd = s)
     \<and> (\<forall>k\<in>set rootSpans. \<exists>s\<in>set spans. span_id s = k \<and>
           (parent_id s = None \<or> parent_id s = Some [] \<or>
            (\<exists>p. parent_id s = Some p \<and> p \<notin> span_id ` set spans)))
     \<and> (\<forall>s\<in>set spans. span_id s \<notin> set rootSpans \<longrightarrow>
           (\<exists>!p. \<exists>nd. m p = Some nd \<and> span_id s \<in> set (children nd)))
     \<and> (\<forall>p nd. m p = Some nd \<longrightarrow>
           distinct (children nd) \<and> set (children nd) \<inter> set rootSpans = {})
     \<and> distinct rootSpans
     \<and> (\<exists>xs. forest_nodes (length spans) m rootSpans = Some xs \<and> mset xs = mset spans)
     \<and> rootSpans = filter (\<lambda>k. k \<in> set rootSpans) (map span_id spans)
     \<and> (\<forall>p nd. m p = Some nd \<longrightarrow>
           children nd = filter (\<lambda>k. k \<in> set (children nd)) (map span_id spans))
     \<and> (\<forall>k. (m k \<noteq> None) = (k \<in> span_id ` set spans))
     \<and> (\<forall>s\<in>set spans. (span_id s \<in> set rootSpans) =
           (parent_id s = None \<or> parent_id s = Some [] \<or>
            (\<exists>p. parent_id s = Some p \<and> p \<notin> span_id ` set spans)))
     \<and> (\<forall>s\<in>set spans. \<forall>p nd. m p = Some nd \<longrightarrow>
           (span_id s \<in> set (children nd)) = (parent_id s = Some p \<and> p \<noteq> []))"
proof -
  obtain rootSpans m where b: "buildSpanHierarchy spans = (rootSpans, m)"
    by (cases "buildSpanHierarchy spans") auto
  let ?ids = "map span_id spans" and ?P = "parent_of spans"
  have roots: "rootSpans = filter (\<lambda>k. ?P k = None) ?ids"
    using build_roots[of spans] b by (simp add: filter_ids[OF d])
  have node: "\<exists>s\<in>set spans. p = span_id s \<and> node_span nd = s
           \<and> children nd = filter (\<lambda>k. ?P k = Some p) ?ids" if "m p = Some nd" for p nd
    using build_node[OF d, of p nd] that b by simp
  have store: "m (span_id s) = Some \<lparr>node_span = s,
      children = filter (\<lambda>k. ?P k = Some (span_id s)) ?ids\<rparr>" if "s \<in> set spans" for s
    using build_store[OF d that] b by (simp add: filter_ids[OF d])
  have 1: "\<forall>s\<in>set spans. \<exists>nd. m (span_id s) = Some nd \<and> node_span nd = s"
    using store by simp
  have 2: "\<forall>k\<in>set rootSpans. \<exists>s\<in>set spans. span_id s = k \<and>
           (parent_id s = None \<or> parent_id s = Some [] \<or>
            (\<exists>p. parent_id s = Some p \<and> p \<notin> span_id ` set spans))"
  proof
    fix k assume "k \<in> set rootSpans"
    then have "k \<in> set ?ids" "?P k = None" by (simp_all add: roots)
    then obtain s where s: "s \<in> set spans" "span_id s = k" by auto
    with \<open>?P k = None\<close> have "attached_to spans s = None"
      using parent_of_span[OF d s(1)] by simp
    with s show "\<exists>s\<in>set spans. span_id s = k \<and>
           (parent_id s = None \<or> parent_id s = Some [] \<or>
            (\<exists>p. parent_id s = Some p \<and> p \<notin> span_id ` set spans))"
      unfolding attached_to_None_iff by blast
  qed
  have 3: "\<forall>s\<in>set spans. span_id s \<notin> set rootSpans \<longrightarrow>
           (\<exists>!p. \<exists>nd. m p = Some nd \<and> span_id s \<in> set (children nd))"
  proof (intro ballI impI)
    fix s assume s: "s \<in> set spans" and nr: "span_id s \<notin> set rootSpans"
    from nr s obtain p where p: "?P (span_id s) = Some p"
      by (auto simp: roots)
    then have "p \<in> set ?ids" by (rule parent_of_closed)
    then obtain ps where ps: "ps \<in> set spans" "p = span_id ps" by auto
    show "\<exists>!p. \<exists>nd. m p = Some nd \<and> span_id s \<in> set (children nd)"
    proof (rule ex1I[of _ p])
      show "\<exists>nd. m p = Some nd \<and> span_id s \<in> set (children nd)"
        using store[OF ps(1)] ps(2) p s by auto
    next
      fix q assume "\<exists>nd. m q = Some nd \<and> span_id s \<in> set (children nd)"
      then obtain nd where "m q = Some nd" "span_id s \<in> set (children nd)" by blast
      with node[of q nd] have "?P (span_id s) = Some q" by auto
      with p show "q = p" by simp
    qed
  qed
  have 4: "\<forall>p nd. m p = Some nd \<longrightarrow>
           distinct (children nd) \<and> set (children nd) \<inter> set rootSpans = {}"
  proof (intro allI impI)
    fix p nd assume "m p = Some nd"
    from node[OF this] have c: "children nd = filter (\<lambda>k. ?P k = Some p) ?ids" by blast
    show "distinct (children nd) \<and> set (children nd) \<inter> set rootSpans = {}"
      unfolding c roots using d by auto
  qed
  have 5: "distinct rootSpans" unfolding roots using d by simp
  have 6: "\<exists>xs. forest_nodes (length spans) m rootSpans = Some xs \<and> mset xs = mset spans"
    using forest_of_build[OF d a] b by simp
  have 7: "rootSpans = filter (\<lambda>k. k \<in> set rootSpans) ?ids"
    unfolding roots by (rule filter_by_membership)
  have 8: "\<forall>p nd. m p = Some nd \<longrightarrow>
           children nd = filter (\<lambda>k. k \<in> set (children nd)) ?ids"
  proof (intro allI impI)
    fix p nd assume "m p = Some nd"
    from node[OF this] have c: "children nd = filter (\<lambda>k. ?P k = Some p) ?ids" by blast
    show "children nd = filter (\<lambda>k. k \<in> set (children nd)) ?ids"
      unfolding c by (rule filter_by_membership)
  qed
  have 9: "\<forall>k. (m k \<noteq> None) = (k \<in> span_id ` set spans)"
    using build_dom[of spans] b by simp
  have 10: "\<forall>s\<in>set spans. (span_id s \<in> set rootSpans) =
           (parent_id s = None \<or> parent_id s = Some [] \<or>
            (\<exists>p. parent_id s = Some p \<and> p \<notin> span_id ` set spans))"
  proof
    fix s assume s: "s \<in> set spans"
    then have "(span_id s \<in> set rootSpans) = (attached_to spans s = None)"
      by (simp add: roots parent_of_span[OF d s])
    then show "(span_id s \<in> set rootSpans) =
           (parent_id s = None \<or> parent_id s = Some [] \<or>
            (\<exists>p. parent_id s = Some p \<and> p \<notin> span_id ` set spans))"
      by (simp only: attached_to_None_iff)
  qed
  have 11: "\<forall>s\<in>set spans. \<forall>p nd. m p = Some nd \<longrightarrow>
           (span_id s \<in> set (children nd)) = (parent_id s = Some p \<and> p \<noteq> [])"
  proof (intro ballI allI impI)
    fix s p nd assume s: "s \<in> set spans" and nd: "m p = Some nd"
    from node[OF nd] have c: "children nd = filter (\<lambda>k. ?P k = Some p) ?ids" by blast
    from nd 9 have p: "p \<in> span_id ` set spans" by blast
    have "(span_id s \<in> set (children nd)) = (attached_to spans s = Some p)"
      using s by (auto simp: c parent_of_span[OF d s])
    also have "\<dots> = (parent_id s = Some p \<and> p \<noteq> [])"
      using p by (auto simp: attached_to_def split: option.splits)
    finally show "(span_id s \<in> set (children nd)) = (parent_id s = Some p \<and> p \<noteq> [])" .
  qed
  from 1 2 3 4 5 6 7 8 9 10 11 show ?thesis unfolding b by simp
qed

theorem C2_span_forest_witness:
  "distinct (map span_id sample_spans) \<and> no_self_ancestor sample_spans
   \<and> fst (buildSpanHierarchy sample_spans) = [''r'', ''x1'']
   \<and> (\<exists>xs. forest_nodes (length sample_spans) (snd (buildSpanHierarchy sample_spans))
              (fst (buildSpanHierarchy sample_spans)) = Some xs
          \<and> mset xs = mset sample_spans)"
proof -
  have r: "fst (buildSpanHierarchy sample_spans) = [''r'', ''x1'']"
    by (simp add: buildSpanHierarchy_def sample_spans_def link_def set_node_def)
  from C2_span_forest[OF sample_spans_ok]
  have "\<exists>xs. forest_nodes (length sample_spans) (snd (buildSpanHierarchy sample_spans))
              (fst (buildSpanHierarchy sample_spans)) = Some xs
          \<and> mset xs = mset sample_spans"
    by (auto split: prod.splits)
  with r sample_spans_ok show ?thesis by blast
qed

end
